theory Spec2Isabelle
  imports Main "HOL-Library.FSet" "HOL-Library.Product_Lexorder"
begin

section \<open>The state and transition model of planner.py\<close>

text \<open>
  A coordinate is a pair (row, column) of Python integers. A planning state is the agent's
  position together with the frozenset of cells still dirty; the frozenset is a finite set,
  compared by its elements. The five action tokens 'V', 'N', 'S', 'E', 'W' are an
  enumeration. The blocked cells are only ever tested for membership.
\<close>

type_synonym coord = "int \<times> int"

type_synonym state = "coord \<times> coord fset"

datatype action = V | N | S | E | W

text \<open>The dictionary MOVE_DIRS, in its insertion order, which is its iteration order.\<close>

definition MOVE_DIRS :: "(action \<times> coord) list" where
  "MOVE_DIRS = [(N, (-1, 0)), (S, (1, 0)), (E, (0, 1)), (W, (0, -1))]"

text \<open>
  The generator successors, as the list of the pairs it yields, in the order it yields them:
  the vacuum action first when the agent stands on a dirty cell, then one move for each entry
  of MOVE_DIRS whose destination is inside the grid and not blocked.
\<close>

definition successors :: "state \<Rightarrow> int \<Rightarrow> int \<Rightarrow> coord set \<Rightarrow> (action \<times> state) list" where
  "successors st rows cols blocked =
     (case st of ((r, c), dirty) \<Rightarrow>
        (if (r, c) |\<in>| dirty
         then [(V, ((r, c), ffilter (\<lambda>d. d \<noteq> (r, c)) dirty))]
         else []) @
        concat (map (\<lambda>(act, (dr, dc)).
                  (let nr = r + dr; nc = c + dc
                   in if 0 \<le> nr \<and> nr < rows \<and> 0 \<le> nc \<and> nc < cols \<and> (nr, nc) \<notin> blocked
                      then [(act, ((nr, nc), dirty))]
                      else []))
                MOVE_DIRS))"

definition is_goal :: "state \<Rightarrow> bool" where
  "is_goal st = (fcard (snd st) = 0)"

section \<open>Depth-first search\<close>

text \<open>
  The result of a search: the plan (None when there is no plan), the number of nodes
  generated and the number of nodes expanded. Both searches keep the two counters among
  their loop variables.
\<close>

type_synonym result = "action list option \<times> nat \<times> nat"

text \<open>
  The variables of the loop of depth_first_search. The Python list used as a stack is kept
  with its top (the end of the Python list, where pop and append work) at the head.
\<close>

record counters =
  nodes_generated :: nat
  nodes_expanded :: nat

record dfs_vars = counters +
  stack :: "(state \<times> action list) list"
  visited :: "state set"

text \<open>The list ACTION_ORDER and the sort key built from it (the position of the action).\<close>

definition ACTION_ORDER :: "action list" where
  "ACTION_ORDER = [V, N, S, E, W]"

fun index_of :: "'a list \<Rightarrow> 'a \<Rightarrow> nat option" where
  "index_of [] a = None"
| "index_of (x # xs) a = (if x = a then Some 0 else map_option Suc (index_of xs a))"

definition action_key :: "action \<times> state \<Rightarrow> nat" where
  "action_key ap = (case index_of ACTION_ORDER (fst ap) of Some i \<Rightarrow> i | None \<Rightarrow> 999)"

text \<open>
  The inner for loop: the sorted successors are walked in reverse, and each one is pushed
  with the path extended by its action, counting one generated node.
\<close>

definition dfs_push :: "action list \<Rightarrow> dfs_vars \<Rightarrow> action \<times> state \<Rightarrow> dfs_vars" where
  "dfs_push path vs ap =
     vs\<lparr>nodes_generated := nodes_generated vs + 1,
        stack := (snd ap, path @ [fst ap]) # stack vs\<rparr>"

text \<open>
  One pass through the body of the while loop, entered with a non-empty stack: either the
  function returns (Inl) or the loop goes on with new variables (Inr). On an empty stack the
  loop is left and the function returns that there is no plan.
\<close>

definition dfs_step :: "int \<Rightarrow> int \<Rightarrow> coord set \<Rightarrow> dfs_vars \<Rightarrow> result + dfs_vars" where
  "dfs_step rows cols blocked vs =
     (case stack vs of
        [] \<Rightarrow> Inl (None, nodes_generated vs, nodes_expanded vs)
      | (st, path) # rest \<Rightarrow>
          if st \<in> visited vs then Inr (vs\<lparr>stack := rest\<rparr>)
          else
            let vs1 = vs\<lparr>stack := rest, visited := insert st (visited vs),
                         nodes_expanded := nodes_expanded vs + 1\<rparr>
            in if is_goal st
               then Inl (Some path, nodes_generated vs1, nodes_expanded vs1)
               else
                 let succs = sort_key action_key (successors st rows cols blocked)
                 in Inr (foldl (dfs_push path) vs1 (rev succs)))"

text \<open>
  The while loop. It runs the body until the function returns; its termination is proved
  below for every value of the variables.
\<close>

function dfs_loop :: "int \<Rightarrow> int \<Rightarrow> coord set \<Rightarrow> dfs_vars \<Rightarrow> result" where
  "dfs_loop rows cols blocked vs =
     (case dfs_step rows cols blocked vs of
        Inl res \<Rightarrow> res
      | Inr vs' \<Rightarrow> dfs_loop rows cols blocked vs')"
  by pat_completeness auto

text \<open>The function itself: the initial values of the variables, then the loop.\<close>

definition dfs_init :: "coord \<Rightarrow> coord fset \<Rightarrow> dfs_vars" where
  "dfs_init start dirty =
     \<lparr>nodes_generated = 1, nodes_expanded = 0,
      stack = [((start, dirty), [])], visited = {}\<rparr>"

definition depth_first_search ::
    "int \<Rightarrow> int \<Rightarrow> coord set \<Rightarrow> coord \<Rightarrow> coord fset \<Rightarrow> result" where
  "depth_first_search rows cols blocked start dirty =
     dfs_loop rows cols blocked (dfs_init start dirty)"

section \<open>Uniform-cost search\<close>

text \<open>
  A frontier entry is the tuple (cost, sequence number, state, path). Python orders such
  tuples on the cost first and the sequence number second; the sequence numbers come from
  itertools.count and differ, so the later components are never compared.

  The module heapq is modelled by its contract: the heap holds the entries pushed and not yet
  popped, and heappop removes and returns a least one.
\<close>

type_synonym entry = "nat \<times> nat \<times> state \<times> action list"

definition entry_key :: "entry \<Rightarrow> nat \<times> nat" where
  "entry_key e = (fst e, fst (snd e))"

definition heappush :: "entry list \<Rightarrow> entry \<Rightarrow> entry list" where
  "heappush h e = h @ [e]"

definition heappop :: "entry list \<Rightarrow> entry \<times> entry list" where
  "heappop h = (let m = arg_min_list entry_key h in (m, remove1 m h))"

text \<open>The only exception the search can raise: the lookup g_best[state] on a missing key.\<close>

datatype error = KeyError

record ucs_vars = counters +
  frontier :: "entry list"
  g_best :: "state \<rightharpoonup> nat"
  counter :: nat

text \<open>
  The body of the for loop over the successors of the state popped at cost g with the
  path path.
\<close>

definition ucs_relax :: "nat \<Rightarrow> action list \<Rightarrow> ucs_vars \<Rightarrow> action \<times> state \<Rightarrow> ucs_vars" where
  "ucs_relax g path vs ap =
     (case ap of (act, nxt) \<Rightarrow>
        let g2 = g + 1; prev = g_best vs nxt
        in if (case prev of None \<Rightarrow> True | Some p \<Rightarrow> g2 < p)
           then vs\<lparr>g_best := (g_best vs)(nxt \<mapsto> g2),
                   frontier := heappush (frontier vs) (g2, counter vs, nxt, path @ [act]),
                   counter := counter vs + 1,
                   nodes_generated := nodes_generated vs + 1\<rparr>
           else vs)"

text \<open>
  One pass through the body of the while loop: the function returns a result or raises
  (Inl), or the loop goes on (Inr).
\<close>

definition ucs_step ::
    "int \<Rightarrow> int \<Rightarrow> coord set \<Rightarrow> ucs_vars \<Rightarrow> (error + result) + ucs_vars" where
  "ucs_step rows cols blocked vs =
     (if frontier vs = [] then Inl (Inr (None, nodes_generated vs, nodes_expanded vs))
      else
        case heappop (frontier vs) of ((g, _, st, path), rest) \<Rightarrow>
          (case g_best vs st of
             None \<Rightarrow> Inl (Inl KeyError)
           | Some best \<Rightarrow>
               if g > best then Inr (vs\<lparr>frontier := rest\<rparr>)
               else
                 let vs1 = vs\<lparr>frontier := rest, nodes_expanded := nodes_expanded vs + 1\<rparr>
                 in if is_goal st
                    then Inl (Inr (Some path, nodes_generated vs1, nodes_expanded vs1))
                    else Inr (foldl (ucs_relax g path) vs1 (successors st rows cols blocked))))"

function ucs_loop :: "int \<Rightarrow> int \<Rightarrow> coord set \<Rightarrow> ucs_vars \<Rightarrow> error + result" where
  "ucs_loop rows cols blocked vs =
     (case ucs_step rows cols blocked vs of
        Inl res \<Rightarrow> res
      | Inr vs' \<Rightarrow> ucs_loop rows cols blocked vs')"
  by pat_completeness auto

text \<open>
  The initial values: the start entry is pushed with cost 0 and the first sequence number,
  the start state is recorded at cost 0, and one node is counted as generated.
\<close>

definition ucs_init :: "coord \<Rightarrow> coord fset \<Rightarrow> ucs_vars" where
  "ucs_init start dirty =
     \<lparr>nodes_generated = 1, nodes_expanded = 0,
      frontier = heappush [] (0, 0, (start, dirty), []),
      g_best = [(start, dirty) \<mapsto> 0],
      counter = 1\<rparr>"

definition uniform_cost_search ::
    "int \<Rightarrow> int \<Rightarrow> coord set \<Rightarrow> coord \<Rightarrow> coord fset \<Rightarrow> error + result" where
  "uniform_cost_search rows cols blocked start dirty =
     ucs_loop rows cols blocked (ucs_init start dirty)"

section \<open>Plans\<close>

text \<open>
  Applying a plan to a state: each action is looked up among the successors of the current
  state, and the plan cannot be applied (None) when an action is not among them.
\<close>

fun apply_plan :: "int \<Rightarrow> int \<Rightarrow> coord set \<Rightarrow> state \<Rightarrow> action list \<Rightarrow> state option" where
  "apply_plan rows cols blocked st [] = Some st"
| "apply_plan rows cols blocked st (a # as) =
     (case map_of (successors st rows cols blocked) a of
        None \<Rightarrow> None
      | Some st' \<Rightarrow> apply_plan rows cols blocked st' as)"

text \<open>
  A plan reaches the goal from a state when it can be applied and ends in a goal state.
\<close>

definition reaches_goal :: "int \<Rightarrow> int \<Rightarrow> coord set \<Rightarrow> state \<Rightarrow> action list \<Rightarrow> bool" where
  "reaches_goal rows cols blocked st plan =
     (case apply_plan rows cols blocked st plan of None \<Rightarrow> False | Some st' \<Rightarrow> is_goal st')"

section \<open>The successor rule in the words of the specification\<close>

text \<open>
  Vacuum first, only when the agent's position is in the dirty set, giving the same position
  with that coordinate removed; then north, south, east, west, each only when the destination
  is within the grid and not blocked, giving the destination with the dirty set unchanged.
\<close>

definition within_bounds :: "int \<Rightarrow> int \<Rightarrow> coord \<Rightarrow> bool" where
  "within_bounds rows cols p = (0 \<le> fst p \<and> fst p < rows \<and> 0 \<le> snd p \<and> snd p < cols)"

definition vacuum_spec :: "state \<Rightarrow> (action \<times> state) list" where
  "vacuum_spec st =
     (if fst st |\<in>| snd st then [(V, (fst st, snd st |-| {|fst st|}))] else [])"

definition move_spec ::
    "int \<Rightarrow> int \<Rightarrow> coord set \<Rightarrow> state \<Rightarrow> action \<Rightarrow> coord \<Rightarrow> (action \<times> state) list" where
  "move_spec rows cols blocked st act dest =
     (if within_bounds rows cols dest \<and> dest \<notin> blocked then [(act, (dest, snd st))] else [])"

definition successors_spec :: "state \<Rightarrow> int \<Rightarrow> int \<Rightarrow> coord set \<Rightarrow> (action \<times> state) list" where
  "successors_spec st rows cols blocked =
     (case fst st of (r, c) \<Rightarrow>
        vacuum_spec st @
        move_spec rows cols blocked st N (r - 1, c) @
        move_spec rows cols blocked st S (r + 1, c) @
        move_spec rows cols blocked st E (r, c + 1) @
        move_spec rows cols blocked st W (r, c - 1))"

section \<open>Running the loops a given number of times\<close>

text \<open>
  The body of a loop run at most n times from given variables: the value the function
  returns, when it returns within n passes, and the variables reached otherwise.
\<close>

fun dfs_iterate :: "nat \<Rightarrow> int \<Rightarrow> int \<Rightarrow> coord set \<Rightarrow> dfs_vars \<Rightarrow> result + dfs_vars" where
  "dfs_iterate 0 rows cols blocked vs = Inr vs"
| "dfs_iterate (Suc n) rows cols blocked vs =
     (case dfs_step rows cols blocked vs of
        Inl res \<Rightarrow> Inl res
      | Inr vs' \<Rightarrow> dfs_iterate n rows cols blocked vs')"

fun ucs_iterate ::
    "nat \<Rightarrow> int \<Rightarrow> int \<Rightarrow> coord set \<Rightarrow> ucs_vars \<Rightarrow> (error + result) + ucs_vars" where
  "ucs_iterate 0 rows cols blocked vs = Inr vs"
| "ucs_iterate (Suc n) rows cols blocked vs =
     (case ucs_step rows cols blocked vs of
        Inl res \<Rightarrow> Inl res
      | Inr vs' \<Rightarrow> ucs_iterate n rows cols blocked vs')"

text \<open>
  The states a search expands, in the order in which it expands them: a pass of the loop
  expands the state it pops unless it discards the entry (already visited, or obsolete).
\<close>

definition dfs_expands :: "dfs_vars \<Rightarrow> state list" where
  "dfs_expands vs =
     (case stack vs of
        [] \<Rightarrow> []
      | (st, path) # rest \<Rightarrow> if st \<in> visited vs then [] else [st])"

definition ucs_expands :: "ucs_vars \<Rightarrow> state list" where
  "ucs_expands vs =
     (if frontier vs = [] then []
      else case heappop (frontier vs) of ((g, _, st, path), rest) \<Rightarrow>
        (case g_best vs st of
           None \<Rightarrow> []
         | Some best \<Rightarrow> if g > best then [] else [st]))"

function dfs_expanded :: "int \<Rightarrow> int \<Rightarrow> coord set \<Rightarrow> dfs_vars \<Rightarrow> state list" where
  "dfs_expanded rows cols blocked vs =
     dfs_expands vs @
     (case dfs_step rows cols blocked vs of
        Inl res \<Rightarrow> []
      | Inr vs' \<Rightarrow> dfs_expanded rows cols blocked vs')"
  by pat_completeness auto

function ucs_expanded :: "int \<Rightarrow> int \<Rightarrow> coord set \<Rightarrow> ucs_vars \<Rightarrow> state list" where
  "ucs_expanded rows cols blocked vs =
     ucs_expands vs @
     (case ucs_step rows cols blocked vs of
        Inl res \<Rightarrow> []
      | Inr vs' \<Rightarrow> ucs_expanded rows cols blocked vs')"
  by pat_completeness auto

text \<open>In a list of expanded states, a is explored before b: a stands before every b.\<close>

definition explored_before :: "state list \<Rightarrow> state \<Rightarrow> state \<Rightarrow> bool" where
  "explored_before xs a b = (a \<in> set (takeWhile (\<lambda>x. x \<noteq> b) xs))"

section \<open>Auxiliary notions for the proofs\<close>

text \<open>
  The cells of the grid, and a finite set of states that contains every state a search can
  meet once the states in \<open>sts\<close> are on its frontier: the agent stays where it is or
  moves to a cell of the grid, and the dirty set only loses elements.
\<close>

definition cells :: "int \<Rightarrow> int \<Rightarrow> coord set" where
  "cells rows cols = {0..<rows} \<times> {0..<cols}"

definition universe :: "int \<Rightarrow> int \<Rightarrow> state set \<Rightarrow> state set" where
  "universe rows cols sts =
     (fst ` sts \<union> cells rows cols) \<times> {d. fset d \<subseteq> (\<Union>s\<in>sts. fset (snd s))}"

definition pushed :: "action list \<Rightarrow> (action \<times> state) list \<Rightarrow> (state \<times> action list) list" where
  "pushed path succs = map (\<lambda>ap. (snd ap, path @ [fst ap])) succs"

definition dfs_measure :: "int \<times> int \<times> coord set \<times> dfs_vars \<Rightarrow> nat \<times> nat" where
  "dfs_measure = (\<lambda>(rows, cols, blocked, vs).
     (card (universe rows cols (fst ` set (stack vs)) - visited vs), length (stack vs)))"

definition entry_state :: "entry \<Rightarrow> state" where
  "entry_state e = fst (snd (snd e))"

definition cost_of :: "(state \<rightharpoonup> nat) \<Rightarrow> state \<Rightarrow> nat" where
  "cost_of m s = (case m s of None \<Rightarrow> 0 | Some v \<Rightarrow> v)"

definition ucs_measure :: "int \<times> int \<times> coord set \<times> ucs_vars \<Rightarrow> nat \<times> nat \<times> nat" where
  "ucs_measure = (\<lambda>(rows, cols, blocked, vs).
     (card (universe rows cols (entry_state ` set (frontier vs)) - dom (g_best vs)),
      sum (cost_of (g_best vs)) (universe rows cols (entry_state ` set (frontier vs))),
      length (frontier vs)))"

definition improves :: "(state \<rightharpoonup> nat) \<Rightarrow> (state \<rightharpoonup> nat) \<Rightarrow> state \<Rightarrow> bool" where
  "improves m m' s \<longleftrightarrow> (\<exists>v'. m' s = Some v' \<and> (\<forall>v. m s = Some v \<longrightarrow> v' < v))"

definition not_worse :: "(state \<rightharpoonup> nat) \<Rightarrow> (state \<rightharpoonup> nat) \<Rightarrow> bool" where
  "not_worse m m' \<longleftrightarrow> (\<forall>s v. m s = Some v \<longrightarrow> (\<exists>v'. m' s = Some v' \<and> v' \<le> v))"

definition relaxed :: "(action \<times> state) list \<Rightarrow> ucs_vars \<Rightarrow> ucs_vars \<Rightarrow> bool" where
  "relaxed succs vs vs' \<longleftrightarrow>
     (\<exists>new. frontier vs' = frontier vs @ new \<and>
        entry_state ` set new \<subseteq> snd ` set succs \<and>
        (\<forall>s. g_best vs' s \<noteq> g_best vs s \<longrightarrow> s \<in> entry_state ` set new) \<and>
        (new \<noteq> [] \<longrightarrow> (\<exists>s. improves (g_best vs) (g_best vs') s))) \<and>
     not_worse (g_best vs) (g_best vs')"

text \<open>Every state on the frontier is a key of the map of best-known costs.\<close>

definition frontier_keyed :: "ucs_vars \<Rightarrow> bool" where
  "frontier_keyed vs \<longleftrightarrow> entry_state ` set (frontier vs) \<subseteq> dom (g_best vs)"

definition dfs_counted :: "dfs_vars \<Rightarrow> bool" where
  "dfs_counted vs \<longleftrightarrow> nodes_expanded vs + length (stack vs) \<le> nodes_generated vs"

definition ucs_counted :: "ucs_vars \<Rightarrow> bool" where
  "ucs_counted vs \<longleftrightarrow> nodes_expanded vs + length (frontier vs) \<le> nodes_generated vs"

definition successor_actions :: "state \<Rightarrow> int \<Rightarrow> int \<Rightarrow> coord set \<Rightarrow> action list" where
  "successor_actions st rows cols blocked =
     (case fst st of (r, c) \<Rightarrow>
        (if fst st |\<in>| snd st then [V] else []) @
        (if within_bounds rows cols (r - 1, c) \<and> (r - 1, c) \<notin> blocked then [N] else []) @
        (if within_bounds rows cols (r + 1, c) \<and> (r + 1, c) \<notin> blocked then [S] else []) @
        (if within_bounds rows cols (r, c + 1) \<and> (r, c + 1) \<notin> blocked then [E] else []) @
        (if within_bounds rows cols (r, c - 1) \<and> (r, c - 1) \<notin> blocked then [W] else []))"

text \<open>Every entry of the stack carries a path that leads from the start state to its state.\<close>

definition stack_valid :: "int \<Rightarrow> int \<Rightarrow> coord set \<Rightarrow> state \<Rightarrow> dfs_vars \<Rightarrow> bool" where
  "stack_valid rows cols blocked s0 vs \<longleftrightarrow>
     (\<forall>e\<in>set (stack vs). apply_plan rows cols blocked s0 (snd e) = Some (fst e))"

text \<open>
  Every entry of the frontier carries a path that leads from the start state to its state,
  and its cost is the length of that path.
\<close>

definition entries_valid :: "int \<Rightarrow> int \<Rightarrow> coord set \<Rightarrow> state \<Rightarrow> entry list \<Rightarrow> bool" where
  "entries_valid rows cols blocked s0 es \<longleftrightarrow>
     (\<forall>e\<in>set es. case e of (g, c, st, path) \<Rightarrow>
        apply_plan rows cols blocked s0 path = Some st \<and> length path = g)"

text \<open>
  The visited states hold no goal state, each of their successors is visited or on the
  stack, and the start state is visited or on the stack.
\<close>

definition dfs_closed :: "int \<Rightarrow> int \<Rightarrow> coord set \<Rightarrow> state \<Rightarrow> dfs_vars \<Rightarrow> bool" where
  "dfs_closed rows cols blocked s0 vs \<longleftrightarrow>
     s0 \<in> visited vs \<union> fst ` set (stack vs) \<and>
     (\<forall>s\<in>visited vs. \<not> is_goal s \<and>
        snd ` set (successors s rows cols blocked) \<subseteq> visited vs \<union> fst ` set (stack vs))"

text \<open>
  The invariant behind the optimality of uniform-cost search. A state recorded in g_best at
  cost v is either still queued at that cost, or it has been expanded: it is no goal and each
  of its successors is recorded at cost v + 1 or less. During the for loop over the successors
  of the state st popped at cost g, this holds for every state but st.
\<close>

definition queued :: "entry list \<Rightarrow> state \<Rightarrow> nat \<Rightarrow> bool" where
  "queued es s v \<longleftrightarrow> (\<exists>e\<in>set es. fst e = v \<and> entry_state e = s)"

definition closed_at ::
    "int \<Rightarrow> int \<Rightarrow> coord set \<Rightarrow> (state \<rightharpoonup> nat) \<Rightarrow> state \<Rightarrow> nat \<Rightarrow> bool" where
  "closed_at rows cols blocked m s v \<longleftrightarrow>
     \<not> is_goal s \<and>
     (\<forall>t\<in>snd ` set (successors s rows cols blocked). \<exists>w. m t = Some w \<and> w \<le> v + 1)"

definition settled :: "int \<Rightarrow> int \<Rightarrow> coord set \<Rightarrow> ucs_vars \<Rightarrow> bool" where
  "settled rows cols blocked vs \<longleftrightarrow>
     (\<forall>s v. g_best vs s = Some v \<longrightarrow>
        queued (frontier vs) s v \<or> closed_at rows cols blocked (g_best vs) s v)"

definition settled_but :: "int \<Rightarrow> int \<Rightarrow> coord set \<Rightarrow> state \<Rightarrow> nat \<Rightarrow> ucs_vars \<Rightarrow> bool" where
  "settled_but rows cols blocked st g vs \<longleftrightarrow>
     (\<forall>s v. g_best vs s = Some v \<longrightarrow>
        queued (frontier vs) s v \<or>
        (if s = st then v = g else closed_at rows cols blocked (g_best vs) s v))"

definition entries_known :: "ucs_vars \<Rightarrow> bool" where
  "entries_known vs \<longleftrightarrow>
     (\<forall>e\<in>set (frontier vs). \<exists>v. g_best vs (entry_state e) = Some v \<and> v \<le> fst e)"

definition ucs_inv :: "int \<Rightarrow> int \<Rightarrow> coord set \<Rightarrow> state \<Rightarrow> ucs_vars \<Rightarrow> bool" where
  "ucs_inv rows cols blocked s0 vs \<longleftrightarrow>
     g_best vs s0 = Some 0 \<and>
     entries_valid rows cols blocked s0 (frontier vs) \<and>
     entries_known vs \<and>
     settled rows cols blocked vs"

section \<open>Termination of depth-first search\<close>

lemma finite_fsets_within: "finite D \<Longrightarrow> finite {d. fset d \<subseteq> D}"
proof -
  assume fin: "finite D"
  have "{d. fset d \<subseteq> D} \<subseteq> Abs_fset ` Pow D"
  proof
    fix d assume "d \<in> {d. fset d \<subseteq> D}"
    then have "fset d \<in> Pow D" by simp
    then have "Abs_fset (fset d) \<in> Abs_fset ` Pow D" by (rule imageI)
    then show "d \<in> Abs_fset ` Pow D" by (simp add: fset_inverse)
  qed
  with fin show ?thesis by (meson finite_Pow_iff finite_imageI finite_subset)
qed

lemma finite_universe: "finite sts \<Longrightarrow> finite (universe rows cols sts)"
  unfolding universe_def cells_def
  by (intro finite_cartesian_product finite_UnI finite_imageI finite_fsets_within finite_UN_I) auto

lemma universe_self: "s \<in> sts \<Longrightarrow> s \<in> universe rows cols sts"
  unfolding universe_def by (cases s) force

lemma successors_move_or_vacuum:
  "(a, t) \<in> set (successors s rows cols blocked) \<Longrightarrow>
     (fst t = fst s \<or> fst t \<in> cells rows cols) \<and> fset (snd t) \<subseteq> fset (snd s)"
  unfolding successors_def MOVE_DIRS_def cells_def
  by (cases s) (auto simp: Let_def split: if_splits)

lemma universe_mono:
  assumes "\<And>t. t \<in> B \<Longrightarrow> \<exists>s\<in>A. (fst t = fst s \<or> fst t \<in> cells rows cols) \<and> fset (snd t) \<subseteq> fset (snd s)"
  shows "universe rows cols B \<subseteq> universe rows cols A"
proof
  fix x assume "x \<in> universe rows cols B"
  then obtain p d where x: "x = (p, d)" and p: "p \<in> fst ` B \<union> cells rows cols"
    and d: "fset d \<subseteq> (\<Union>s\<in>B. fset (snd s))" unfolding universe_def by auto
  have "p \<in> fst ` A \<union> cells rows cols" using p assms by force
  moreover have "fset d \<subseteq> (\<Union>s\<in>A. fset (snd s))"
  proof
    fix e assume "e \<in> fset d"
    with d obtain t where "t \<in> B" "e \<in> fset (snd t)" by auto
    with assms[of t] show "e \<in> (\<Union>s\<in>A. fset (snd s))" by blast
  qed
  ultimately show "x \<in> universe rows cols A" unfolding universe_def x by simp
qed

lemma universe_subset: "B \<subseteq> A \<Longrightarrow> universe rows cols B \<subseteq> universe rows cols A"
  by (rule universe_mono) blast

lemma foldl_dfs_push:
  "foldl (dfs_push path) vs xs =
     vs\<lparr>nodes_generated := nodes_generated vs + length xs,
        stack := rev (map (\<lambda>ap. (snd ap, path @ [fst ap])) xs) @ stack vs\<rparr>"
  by (induction xs arbitrary: vs) (simp_all add: dfs_push_def)

lemma dfs_step_Inr:
  assumes "dfs_step rows cols blocked vs = Inr vs'"
  obtains (skip) st path rest where "stack vs = (st, path) # rest" "st \<in> visited vs"
      "vs' = vs\<lparr>stack := rest\<rparr>"
  | (expand) st path rest where "stack vs = (st, path) # rest" "st \<notin> visited vs"
      "\<not> is_goal st"
      "vs' = vs\<lparr>stack := pushed path (sort_key action_key (successors st rows cols blocked)) @ rest,
                 visited := insert st (visited vs),
                 nodes_generated := nodes_generated vs + length (successors st rows cols blocked),
                 nodes_expanded := nodes_expanded vs + 1\<rparr>"
  using assms unfolding dfs_step_def pushed_def
  by (auto simp: foldl_dfs_push Let_def rev_map split: list.splits if_splits)

lemma dfs_step_decreases:
  assumes "dfs_step rows cols blocked vs = Inr vs'"
  shows "((rows, cols, blocked, vs'), (rows, cols, blocked, vs))
           \<in> inv_image (less_than <*lex*> less_than) dfs_measure"
  using assms
proof (cases rule: dfs_step_Inr)
  case (skip st path rest)
  have "universe rows cols (fst ` set rest) \<subseteq> universe rows cols (fst ` set (stack vs))"
    by (rule universe_subset) (use skip in auto)
  then have "card (universe rows cols (fst ` set rest) - visited vs)
               \<le> card (universe rows cols (fst ` set (stack vs)) - visited vs)"
    by (intro card_mono finite_Diff finite_universe) auto
  then show ?thesis using skip by (auto simp: dfs_measure_def)
next
  case (expand st path rest)
  let ?U = "universe rows cols (fst ` set (stack vs))"
  let ?U' = "universe rows cols (fst ` set (stack vs'))"
  have sub: "?U' \<subseteq> ?U"
  proof (rule universe_mono)
    fix t assume "t \<in> fst ` set (stack vs')"
    then consider "t \<in> fst ` set rest"
      | a where "(a, t) \<in> set (successors st rows cols blocked)"
      using expand by (auto simp: pushed_def)
    then show "\<exists>s\<in>fst ` set (stack vs).
        (fst t = fst s \<or> fst t \<in> cells rows cols) \<and> fset (snd t) \<subseteq> fset (snd s)"
    proof cases
      case 1 then show ?thesis using expand by auto
    next
      case 2
      from successors_move_or_vacuum[OF 2] show ?thesis using expand by force
    qed
  qed
  have "st \<in> ?U" by (rule universe_self) (use expand in force)
  then have "?U' - visited vs' \<subset> ?U - visited vs"
    using sub expand by auto
  then have "card (?U' - visited vs') < card (?U - visited vs)"
    by (intro psubset_card_mono finite_Diff finite_universe) auto
  then show ?thesis by (simp add: dfs_measure_def)
qed

lemma dfs_loop_total: "All dfs_loop_dom"
proof (relation "inv_image (less_than <*lex*> less_than) dfs_measure")
  show "wf (inv_image (less_than <*lex*> less_than) dfs_measure)"
    by (intro wf_inv_image wf_lex_prod wf_less_than)
qed (rule dfs_step_decreases)

termination dfs_loop
  using dfs_loop_total by blast

termination dfs_expanded
proof (relation "inv_image (less_than <*lex*> less_than) dfs_measure")
  show "wf (inv_image (less_than <*lex*> less_than) dfs_measure)"
    by (intro wf_inv_image wf_lex_prod wf_less_than)
qed (rule dfs_step_decreases)

declare dfs_loop.simps [simp del] dfs_expanded.simps [simp del]

section \<open>Termination of uniform-cost search\<close>

lemma relaxed_refl: "relaxed succs vs vs"
  unfolding relaxed_def not_worse_def by auto

lemma relaxed_step:
  "relaxed [ap] vs (ucs_relax g path vs ap)"
proof -
  obtain act nxt where Pair: "ap = (act, nxt)" by (cases ap) auto
  show ?thesis
  proof (cases "case g_best vs nxt of None \<Rightarrow> True | Some p \<Rightarrow> g + 1 < p")
    case False
    then have "ucs_relax g path vs ap = vs"
      by (auto simp: ucs_relax_def Pair Let_def split: option.splits)
    then show ?thesis by (simp add: relaxed_refl)
  next
    case True
    let ?e = "(g + 1, counter vs, nxt, path @ [act])"
    from True have eq: "ucs_relax g path vs ap =
        vs\<lparr>g_best := (g_best vs)(nxt \<mapsto> g + 1), frontier := frontier vs @ [?e],
           counter := counter vs + 1, nodes_generated := nodes_generated vs + 1\<rparr>"
      by (auto simp: ucs_relax_def Pair Let_def heappush_def split: option.splits)
    have imp: "improves (g_best vs) ((g_best vs)(nxt \<mapsto> g + 1)) nxt"
      using True by (auto simp: improves_def split: option.splits)
    have nw: "not_worse (g_best vs) ((g_best vs)(nxt \<mapsto> g + 1))"
      using True by (auto simp: not_worse_def split: option.splits)
    have "\<exists>s. improves (g_best vs) ((g_best vs)(nxt \<mapsto> g + 1)) s"
      using imp by blast
    then show ?thesis
      unfolding relaxed_def eq
      apply (intro conjI exI[of _ "[?e]"])
      using nw by (simp_all add: entry_state_def Pair)
  qed
qed

lemma improves_not_worse:
  "improves m m1 s \<Longrightarrow> not_worse m1 m2 \<Longrightarrow> improves m m2 s"
  unfolding improves_def not_worse_def by (meson le_less_trans)

lemma not_worse_improves:
  "not_worse m m1 \<Longrightarrow> improves m1 m2 s \<Longrightarrow> improves m m2 s"
  unfolding improves_def not_worse_def by (metis less_le_trans)

lemma not_worse_trans: "not_worse m m1 \<Longrightarrow> not_worse m1 m2 \<Longrightarrow> not_worse m m2"
  unfolding not_worse_def by (meson order_trans)

lemma relaxed_trans:
  assumes "relaxed xs vs vs1" "relaxed ys vs1 vs2"
  shows "relaxed (xs @ ys) vs vs2"
proof -
  from assms(1) obtain n1 where n1: "frontier vs1 = frontier vs @ n1"
    "entry_state ` set n1 \<subseteq> snd ` set xs"
    "\<forall>s. g_best vs1 s \<noteq> g_best vs s \<longrightarrow> s \<in> entry_state ` set n1"
    "n1 \<noteq> [] \<longrightarrow> (\<exists>s. improves (g_best vs) (g_best vs1) s)"
    and le1: "not_worse (g_best vs) (g_best vs1)"
    unfolding relaxed_def by blast
  from assms(2) obtain n2 where n2: "frontier vs2 = frontier vs1 @ n2"
    "entry_state ` set n2 \<subseteq> snd ` set ys"
    "\<forall>s. g_best vs2 s \<noteq> g_best vs1 s \<longrightarrow> s \<in> entry_state ` set n2"
    "n2 \<noteq> [] \<longrightarrow> (\<exists>s. improves (g_best vs1) (g_best vs2) s)"
    and le2: "not_worse (g_best vs1) (g_best vs2)"
    unfolding relaxed_def by blast
  have a: "frontier vs2 = frontier vs @ (n1 @ n2)" using n1 n2 by simp
  have b: "entry_state ` set (n1 @ n2) \<subseteq> snd ` set (xs @ ys)" using n1 n2 by auto
  have c: "\<forall>s. g_best vs2 s \<noteq> g_best vs s \<longrightarrow> s \<in> entry_state ` set (n1 @ n2)"
    using n1(3) n2(3) by (metis UnCI image_Un set_append)
  have d: "not_worse (g_best vs) (g_best vs2)"
    using le1 le2 by (rule not_worse_trans)
  have e: "n1 @ n2 \<noteq> [] \<longrightarrow> (\<exists>s. improves (g_best vs) (g_best vs2) s)"
    using n1(4) n2(4) improves_not_worse[OF _ le2] not_worse_improves[OF le1] by fastforce
  show ?thesis unfolding relaxed_def using a b c d e by blast
qed

lemma relaxed_foldl: "relaxed succs vs (foldl (ucs_relax g path) vs succs)"
proof (induction succs arbitrary: vs)
  case Nil
  show ?case by (simp add: relaxed_refl)
next
  case (Cons ap succs)
  have "relaxed ([ap] @ succs) vs (foldl (ucs_relax g path) (ucs_relax g path vs ap) succs)"
    by (rule relaxed_trans[OF relaxed_step Cons.IH])
  then show ?case by simp
qed

lemma heappop_props:
  assumes "h \<noteq> []" "heappop h = (e, rest)"
  shows "e \<in> set h" "rest = remove1 e h" "length h = Suc (length rest)" "set rest \<subseteq> set h"
    "\<forall>e'\<in>set h. entry_key e \<le> entry_key e'"
proof -
  from assms(2) have e: "e = arg_min_list entry_key h" and r: "rest = remove1 e h"
    by (auto simp: heappop_def Let_def)
  show "e \<in> set h" using e assms(1) by (simp add: arg_min_list_in)
  then show "length h = Suc (length rest)" using r
    by (metis One_nat_def Suc_pred length_pos_if_in_set length_remove1)
  show "rest = remove1 e h" by (rule r)
  show "set rest \<subseteq> set h" using r by (simp add: set_remove1_subset)
  show "\<forall>e'\<in>set h. entry_key e \<le> entry_key e'"
    using e assms(1) by (simp add: f_arg_min_list_f)
qed

lemma ucs_step_Inr:
  assumes "ucs_step rows cols blocked vs = Inr vs'"
  obtains (stale) g c st path rest best where "frontier vs \<noteq> []"
      "heappop (frontier vs) = ((g, c, st, path), rest)" "g_best vs st = Some best" "best < g"
      "vs' = vs\<lparr>frontier := rest\<rparr>"
  | (expand) g c st path rest best where "frontier vs \<noteq> []"
      "heappop (frontier vs) = ((g, c, st, path), rest)" "g_best vs st = Some best" "g \<le> best"
      "\<not> is_goal st"
      "vs' = foldl (ucs_relax g path)
               (vs\<lparr>frontier := rest, nodes_expanded := nodes_expanded vs + 1\<rparr>)
               (successors st rows cols blocked)"
  using assms unfolding ucs_step_def
  by (auto simp: Let_def split: if_splits prod.splits option.splits)

lemma lex3_I:
  "a' \<le> a \<Longrightarrow> b' \<le> b \<Longrightarrow> c' < c \<Longrightarrow>
     ((a', b', c'), (a, b, c)) \<in> less_than <*lex*> less_than <*lex*> less_than"
  for a b c :: nat
  by auto

lemma ucs_shrink:
  assumes sub: "set fr' \<subseteq> set fr" and len: "length fr' < length fr"
  shows "(ucs_measure (rows, cols, blocked, vs\<lparr>frontier := fr'\<rparr>),
          ucs_measure (rows, cols, blocked, vs\<lparr>frontier := fr\<rparr>))
           \<in> less_than <*lex*> less_than <*lex*> less_than"
proof -
  let ?U = "universe rows cols (entry_state ` set fr)"
  let ?U' = "universe rows cols (entry_state ` set fr')"
  have U: "?U' \<subseteq> ?U" by (rule universe_subset) (use sub in auto)
  have fin: "finite ?U" by (rule finite_universe) simp
  have 1: "card (?U' - dom (g_best vs)) \<le> card (?U - dom (g_best vs))"
    using U fin by (intro card_mono) auto
  have 2: "sum (cost_of (g_best vs)) ?U' \<le> sum (cost_of (g_best vs)) ?U"
    using U fin by (intro sum_mono2) auto
  show ?thesis unfolding ucs_measure_def using lex3_I[OF 1 2 len] by simp
qed

lemma ucs_measure_cong:
  "frontier a = frontier b \<Longrightarrow> g_best a = g_best b \<Longrightarrow>
     ucs_measure (rows, cols, blocked, a) = ucs_measure (rows, cols, blocked, b)"
  by (simp add: ucs_measure_def)

lemma ucs_step_decreases:
  assumes "ucs_step rows cols blocked vs = Inr vs'"
  shows "((rows, cols, blocked, vs'), (rows, cols, blocked, vs))
           \<in> inv_image (less_than <*lex*> less_than <*lex*> less_than) ucs_measure"
  using assms
proof (cases rule: ucs_step_Inr)
  case (stale g c st path rest best)
  from heappop_props[OF stale(1,2)]
  have "set rest \<subseteq> set (frontier vs)" "length rest < length (frontier vs)" by auto
  from ucs_shrink[OF this, of rows cols blocked vs] show ?thesis
    using stale by simp
next
  case (expand g c st path rest best)
  let ?vs1 = "vs\<lparr>frontier := rest, nodes_expanded := nodes_expanded vs + 1\<rparr>"
  let ?succs = "successors st rows cols blocked"
  note hp = heappop_props[OF expand(1,2)]
  have "relaxed ?succs ?vs1 vs'" unfolding expand(6) by (rule relaxed_foldl)
  then obtain new where new: "frontier vs' = rest @ new"
      "entry_state ` set new \<subseteq> snd ` set ?succs"
      "\<forall>s. g_best vs' s \<noteq> g_best vs s \<longrightarrow> s \<in> entry_state ` set new"
      "new \<noteq> [] \<longrightarrow> (\<exists>s. improves (g_best vs) (g_best vs') s)"
    and nw: "not_worse (g_best vs) (g_best vs')"
    unfolding relaxed_def by auto
  have shrink: "(ucs_measure (rows, cols, blocked, vs\<lparr>frontier := rest\<rparr>),
          ucs_measure (rows, cols, blocked, vs))
           \<in> less_than <*lex*> less_than <*lex*> less_than"
    using ucs_shrink[of rest "frontier vs" rows cols blocked vs] hp by simp
  show ?thesis
  proof (cases "new = []")
    case True
    with new have "frontier vs' = rest" "g_best vs' = g_best vs" by auto
    then have "ucs_measure (rows, cols, blocked, vs')
                 = ucs_measure (rows, cols, blocked, vs\<lparr>frontier := rest\<rparr>)"
      by (intro ucs_measure_cong) simp_all
    with shrink show ?thesis by simp
  next
    case False
    let ?U = "universe rows cols (entry_state ` set (frontier vs))"
    let ?U' = "universe rows cols (entry_state ` set (frontier vs'))"
    have st_in: "st \<in> entry_state ` set (frontier vs)"
      using hp(1) by (force simp: entry_state_def)
    have U: "?U' \<subseteq> ?U"
    proof (rule universe_mono)
      fix t assume "t \<in> entry_state ` set (frontier vs')"
      then consider "t \<in> entry_state ` set rest" | "t \<in> snd ` set ?succs"
        using new by auto
      then show "\<exists>s\<in>entry_state ` set (frontier vs).
          (fst t = fst s \<or> fst t \<in> cells rows cols) \<and> fset (snd t) \<subseteq> fset (snd s)"
      proof cases
        case 1 then show ?thesis using hp(4) by auto
      next
        case 2
        then obtain a where "(a, t) \<in> set ?succs" by force
        from successors_move_or_vacuum[OF this] st_in show ?thesis by blast
      qed
    qed
    have fin: "finite ?U" by (rule finite_universe) simp
    have dom_sub: "dom (g_best vs) \<subseteq> dom (g_best vs')"
      using nw unfolding not_worse_def by blast
    have changed_in: "s \<in> ?U'" if "g_best vs' s \<noteq> g_best vs s" for s
    proof -
      from that new(3) have "s \<in> entry_state ` set new" by blast
      then have "s \<in> entry_state ` set (frontier vs')" using new(1) by auto
      then show ?thesis by (rule universe_self)
    qed
    show ?thesis
    proof (cases "\<exists>s. g_best vs s = None \<and> g_best vs' s \<noteq> None")
      case True
      then obtain s where s: "g_best vs s = None" "g_best vs' s \<noteq> None" by blast
      then have "s \<in> ?U'" by (intro changed_in) auto
      with U s have "s \<in> ?U - dom (g_best vs)" "s \<notin> ?U' - dom (g_best vs')" by auto
      moreover have "?U' - dom (g_best vs') \<subseteq> ?U - dom (g_best vs)"
        using U dom_sub by blast
      ultimately have "?U' - dom (g_best vs') \<subset> ?U - dom (g_best vs)" by blast
      then have "card (?U' - dom (g_best vs')) < card (?U - dom (g_best vs))"
        using fin by (intro psubset_card_mono) auto
      then show ?thesis by (simp add: ucs_measure_def)
    next
      case False
      then have nonew: "g_best vs' x = None" if "g_best vs x = None" for x
        using that by blast
      then have "dom (g_best vs') \<subseteq> dom (g_best vs)"
        by (metis domIff subsetI)
      with dom_sub have dom_eq: "dom (g_best vs') = dom (g_best vs)"
        by blast
      from \<open>new \<noteq> []\<close> new(4) obtain s v' where s: "g_best vs' s = Some v'"
          "\<forall>v. g_best vs s = Some v \<longrightarrow> v' < v"
        unfolding improves_def by blast
      with nonew[of s] obtain v where v: "g_best vs s = Some v" "v' < v"
        by (cases "g_best vs s") auto
      have le: "cost_of (g_best vs') x \<le> cost_of (g_best vs) x" for x
      proof (cases "g_best vs x")
        case None
        then have "g_best vs' x = None" by (rule nonew)
        with None show ?thesis by (simp add: cost_of_def)
      next
        case (Some w)
        with nw obtain w' where "g_best vs' x = Some w'" "w' \<le> w"
          unfolding not_worse_def by blast
        with Some show ?thesis by (simp add: cost_of_def)
      qed
      have sU': "s \<in> ?U'" using s v by (intro changed_in) auto
      have fin': "finite ?U'" by (rule finite_universe) simp
      have "cost_of (g_best vs') s < cost_of (g_best vs) s"
        using s v by (simp add: cost_of_def)
      with sU' have "\<exists>a\<in>?U'. cost_of (g_best vs') a < cost_of (g_best vs) a"
        by blast
      then have "sum (cost_of (g_best vs')) ?U' < sum (cost_of (g_best vs)) ?U'"
        using fin' le by (intro sum_strict_mono_ex1) simp_all
      also have "\<dots> \<le> sum (cost_of (g_best vs)) ?U"
        using U fin by (intro sum_mono2) auto
      finally have 2: "sum (cost_of (g_best vs')) ?U' < sum (cost_of (g_best vs)) ?U" .
      have 1: "card (?U' - dom (g_best vs')) \<le> card (?U - dom (g_best vs))"
        unfolding dom_eq using U fin by (intro card_mono) auto
      from 1 2 show ?thesis by (auto simp: ucs_measure_def)
    qed
  qed
qed

lemma ucs_loop_total: "All ucs_loop_dom"
proof (relation "inv_image (less_than <*lex*> less_than <*lex*> less_than) ucs_measure")
  show "wf (inv_image (less_than <*lex*> less_than <*lex*> less_than) ucs_measure)"
    by (intro wf_inv_image wf_lex_prod wf_less_than)
qed (rule ucs_step_decreases)

termination ucs_loop
  using ucs_loop_total by blast

termination ucs_expanded
proof (relation "inv_image (less_than <*lex*> less_than <*lex*> less_than) ucs_measure")
  show "wf (inv_image (less_than <*lex*> less_than <*lex*> less_than) ucs_measure)"
    by (intro wf_inv_image wf_lex_prod wf_less_than)
qed (rule ucs_step_decreases)

declare ucs_loop.simps [simp del] ucs_expanded.simps [simp del]

section \<open>The successor rule\<close>

lemma successors_expand:
  "successors ((r, c), dirty) rows cols blocked =
     (if (r, c) |\<in>| dirty then [(V, ((r, c), dirty |-| {|(r, c)|}))] else []) @
     (if 0 \<le> r - 1 \<and> r - 1 < rows \<and> 0 \<le> c \<and> c < cols \<and> (r - 1, c) \<notin> blocked
      then [(N, ((r - 1, c), dirty))] else []) @
     (if 0 \<le> r + 1 \<and> r + 1 < rows \<and> 0 \<le> c \<and> c < cols \<and> (r + 1, c) \<notin> blocked
      then [(S, ((r + 1, c), dirty))] else []) @
     (if 0 \<le> r \<and> r < rows \<and> 0 \<le> c + 1 \<and> c + 1 < cols \<and> (r, c + 1) \<notin> blocked
      then [(E, ((r, c + 1), dirty))] else []) @
     (if 0 \<le> r \<and> r < rows \<and> 0 \<le> c - 1 \<and> c - 1 < cols \<and> (r, c - 1) \<notin> blocked
      then [(W, ((r, c - 1), dirty))] else [])"
proof -
  have "ffilter (\<lambda>d. d \<noteq> (r, c)) dirty = dirty |-| {|(r, c)|}"
    by auto
  then show ?thesis
    by (simp add: successors_def MOVE_DIRS_def Let_def)
qed

text \<open>
  C2: for every state, grid bounds and blocked set, the successors are exactly the legal
  (action, state) pairs in the canonical order: vacuum first (only on a dirty cell, giving
  the same position with that cell removed from the dirty set), then north, south, east,
  west (each only when the destination is in the grid and not blocked, giving the
  destination with the dirty set unchanged).
\<close>

theorem successors_canonical_order:
  "successors st rows cols blocked = successors_spec st rows cols blocked"
proof -
  obtain r c dirty where st: "st = ((r, c), dirty)" by (cases st) auto
  show ?thesis
    unfolding st successors_expand
    by (simp add: successors_spec_def vacuum_spec_def move_spec_def within_bounds_def)
qed

section \<open>The ordering scenario\<close>

text \<open>
  C1, as the code behaves: on the 1x3 grid with the agent at (0,1), dirty cells (0,0) and
  (0,2) and no blocked cell, the start state has the successors east then west, both
  searches expand the east successor before the west one, and both return the plan
  E, V, W, W, V.
\<close>

theorem ordering_scenario_east_first:
  "depth_first_search 1 3 {} (0, 1) {|(0, 0), (0, 2)|} = (Some [E, V, W, W, V], 10, 6) \<and>
   uniform_cost_search 1 3 {} (0, 1) {|(0, 0), (0, 2)|} = Inr (Some [E, V, W, W, V], 11, 10) \<and>
   map fst (successors ((0, 1), {|(0, 0), (0, 2)|}) 1 3 {}) = [E, W] \<and>
   explored_before (dfs_expanded 1 3 {} (dfs_init (0, 1) {|(0, 0), (0, 2)|}))
     ((0, 2), {|(0, 0), (0, 2)|}) ((0, 0), {|(0, 0), (0, 2)|}) \<and>
   explored_before (ucs_expanded 1 3 {} (ucs_init (0, 1) {|(0, 0), (0, 2)|}))
     ((0, 2), {|(0, 0), (0, 2)|}) ((0, 0), {|(0, 0), (0, 2)|})"
  by code_simp

text \<open>
  C1, as stated, fails: in that scenario neither search explores the west successor of the
  start state before the east successor.
\<close>

theorem ordering_scenario_west_first_fails:
  "\<not> explored_before (dfs_expanded 1 3 {} (dfs_init (0, 1) {|(0, 0), (0, 2)|}))
       ((0, 0), {|(0, 0), (0, 2)|}) ((0, 2), {|(0, 0), (0, 2)|}) \<and>
   \<not> explored_before (ucs_expanded 1 3 {} (ucs_init (0, 1) {|(0, 0), (0, 2)|}))
       ((0, 0), {|(0, 0), (0, 2)|}) ((0, 2), {|(0, 0), (0, 2)|})"
  by code_simp

section \<open>Termination, stated on the number of passes\<close>

lemma dfs_loop_returns:
  "\<exists>n. dfs_iterate n rows cols blocked vs = Inl (dfs_loop rows cols blocked vs)"
proof (induction rows cols blocked vs rule: dfs_loop.induct)
  case (1 rows cols blocked vs)
  show ?case
  proof (cases "dfs_step rows cols blocked vs")
    case (Inl res)
    then have "dfs_iterate (Suc 0) rows cols blocked vs = Inl (dfs_loop rows cols blocked vs)"
      by (simp add: dfs_loop.simps[of rows cols blocked vs])
    then show ?thesis by blast
  next
    case (Inr vs')
    from 1[OF Inr] obtain n where
      "dfs_iterate n rows cols blocked vs' = Inl (dfs_loop rows cols blocked vs')" by blast
    with Inr have "dfs_iterate (Suc n) rows cols blocked vs = Inl (dfs_loop rows cols blocked vs)"
      by (simp add: dfs_loop.simps[of rows cols blocked vs])
    then show ?thesis by blast
  qed
qed

lemma ucs_loop_returns:
  "\<exists>n. ucs_iterate n rows cols blocked vs = Inl (ucs_loop rows cols blocked vs)"
proof (induction rows cols blocked vs rule: ucs_loop.induct)
  case (1 rows cols blocked vs)
  show ?case
  proof (cases "ucs_step rows cols blocked vs")
    case (Inl res)
    then have "ucs_iterate (Suc 0) rows cols blocked vs = Inl (ucs_loop rows cols blocked vs)"
      by (simp add: ucs_loop.simps[of rows cols blocked vs])
    then show ?thesis by blast
  next
    case (Inr vs')
    from 1[OF Inr] obtain n where
      "ucs_iterate n rows cols blocked vs' = Inl (ucs_loop rows cols blocked vs')" by blast
    with Inr have "ucs_iterate (Suc n) rows cols blocked vs = Inl (ucs_loop rows cols blocked vs)"
      by (simp add: ucs_loop.simps[of rows cols blocked vs])
    then show ?thesis by blast
  qed
qed

text \<open>
  C9: both searches terminate: from the initial variables, the body of the while loop is run
  a finite number of times and then the function returns its result, a plan or no plan, with
  the final counters. This holds for every grid size and every (finite) dirty set.
\<close>

theorem searches_terminate:
  "(\<exists>n. dfs_iterate n rows cols blocked (dfs_init start dirty)
          = Inl (depth_first_search rows cols blocked start dirty)) \<and>
   (\<exists>n. ucs_iterate n rows cols blocked (ucs_init start dirty)
          = Inl (uniform_cost_search rows cols blocked start dirty))"
  unfolding depth_first_search_def uniform_cost_search_def
  using dfs_loop_returns ucs_loop_returns by blast

section \<open>Invariants of the loops: keys of the cost map, counters\<close>

lemma dfs_step_Inl:
  assumes "dfs_step rows cols blocked vs = Inl res"
  obtains (empty) "stack vs = []" "res = (None, nodes_generated vs, nodes_expanded vs)"
  | (goal) st path rest where "stack vs = (st, path) # rest" "st \<notin> visited vs" "is_goal st"
      "res = (Some path, nodes_generated vs, nodes_expanded vs + 1)"
  using assms unfolding dfs_step_def
  by (auto simp: Let_def split: list.splits if_splits)

lemma ucs_step_Inl:
  assumes "ucs_step rows cols blocked vs = Inl res"
  obtains (empty) "frontier vs = []"
      "res = Inr (None, nodes_generated vs, nodes_expanded vs)"
  | (keyerror) g c st path rest where "frontier vs \<noteq> []"
      "heappop (frontier vs) = ((g, c, st, path), rest)" "g_best vs st = None"
      "res = Inl KeyError"
  | (goal) g c st path rest best where "frontier vs \<noteq> []"
      "heappop (frontier vs) = ((g, c, st, path), rest)" "g_best vs st = Some best" "g \<le> best"
      "is_goal st" "res = Inr (Some path, nodes_generated vs, nodes_expanded vs + 1)"
  using assms unfolding ucs_step_def
  by (auto simp: Let_def split: if_splits prod.splits option.splits)

text \<open>Invariants of the loops carry over to the value returned.\<close>

lemma dfs_loop_rule:
  assumes "I vs"
    and "\<And>vs vs'. I vs \<Longrightarrow> dfs_step rows cols blocked vs = Inr vs' \<Longrightarrow> I vs'"
    and "\<And>vs res. I vs \<Longrightarrow> dfs_step rows cols blocked vs = Inl res \<Longrightarrow> Q res"
  shows "Q (dfs_loop rows cols blocked vs)"
  using assms
proof (induction rows cols blocked vs rule: dfs_loop.induct)
  case (1 rows cols blocked vs)
  show ?case
  proof (cases "dfs_step rows cols blocked vs")
    case (Inl res)
    with "1.prems"(1,3) show ?thesis
      by (simp add: dfs_loop.simps[of rows cols blocked vs])
  next
    case (Inr vs')
    have "Q (dfs_loop rows cols blocked vs')"
      using Inr "1.prems" by (intro "1.IH") blast+
    with Inr show ?thesis
      by (simp add: dfs_loop.simps[of rows cols blocked vs])
  qed
qed

lemma ucs_loop_rule:
  assumes "I vs"
    and "\<And>vs vs'. I vs \<Longrightarrow> ucs_step rows cols blocked vs = Inr vs' \<Longrightarrow> I vs'"
    and "\<And>vs res. I vs \<Longrightarrow> ucs_step rows cols blocked vs = Inl res \<Longrightarrow> Q res"
  shows "Q (ucs_loop rows cols blocked vs)"
  using assms
proof (induction rows cols blocked vs rule: ucs_loop.induct)
  case (1 rows cols blocked vs)
  show ?case
  proof (cases "ucs_step rows cols blocked vs")
    case (Inl res)
    with "1.prems"(1,3) show ?thesis
      by (simp add: ucs_loop.simps[of rows cols blocked vs])
  next
    case (Inr vs')
    have "Q (ucs_loop rows cols blocked vs')"
      using Inr "1.prems" by (intro "1.IH") blast+
    with Inr show ?thesis
      by (simp add: ucs_loop.simps[of rows cols blocked vs])
  qed
qed

lemma dfs_iterate_rule:
  assumes "I vs"
    and "\<And>vs vs'. I vs \<Longrightarrow> dfs_step rows cols blocked vs = Inr vs' \<Longrightarrow> I vs'"
    and "dfs_iterate n rows cols blocked vs = Inr vs'"
  shows "I vs'"
  using assms(1,3)
proof (induction n arbitrary: vs)
  case 0
  then show ?case by simp
next
  case (Suc n)
  then show ?case
    by (cases "dfs_step rows cols blocked vs") (auto intro: assms(2))
qed

lemma ucs_iterate_rule:
  assumes "I vs"
    and "\<And>vs vs'. I vs \<Longrightarrow> ucs_step rows cols blocked vs = Inr vs' \<Longrightarrow> I vs'"
    and "ucs_iterate n rows cols blocked vs = Inr vs'"
  shows "I vs'"
  using assms(1,3)
proof (induction n arbitrary: vs)
  case 0
  then show ?case by simp
next
  case (Suc n)
  then show ?case
    by (cases "ucs_step rows cols blocked vs") (auto intro: assms(2))
qed

lemma foldl_ucs_relax_rule:
  assumes "I vs" and "\<And>vs ap. I vs \<Longrightarrow> ap \<in> set succs \<Longrightarrow> I (ucs_relax g path vs ap)"
  shows "I (foldl (ucs_relax g path) vs succs)"
  using assms by (induction succs arbitrary: vs) auto

lemma frontier_keyed_init: "frontier_keyed (ucs_init start dirty)"
  by (simp add: frontier_keyed_def ucs_init_def heappush_def entry_state_def)

lemma frontier_keyed_relax: "frontier_keyed vs \<Longrightarrow> frontier_keyed (ucs_relax g path vs ap)"
  unfolding frontier_keyed_def ucs_relax_def heappush_def entry_state_def
  by (cases ap) (auto simp: Let_def split: option.splits)

lemma frontier_keyed_step:
  assumes "frontier_keyed vs" "ucs_step rows cols blocked vs = Inr vs'"
  shows "frontier_keyed vs'"
  using assms(2)
proof (cases rule: ucs_step_Inr)
  case (stale g c st path rest best)
  with heappop_props(4)[OF stale(1,2)] assms(1) show ?thesis
    by (auto simp: frontier_keyed_def)
next
  case (expand g c st path rest best)
  have "frontier_keyed (vs\<lparr>frontier := rest, nodes_expanded := nodes_expanded vs + 1\<rparr>)"
    using heappop_props(4)[OF expand(1,2)] assms(1) by (auto simp: frontier_keyed_def)
  then show ?thesis unfolding expand(6)
    by (rule foldl_ucs_relax_rule) (rule frontier_keyed_relax)
qed

lemma frontier_keyed_no_KeyError:
  assumes "frontier_keyed vs"
  shows "ucs_step rows cols blocked vs \<noteq> Inl (Inl KeyError)"
proof
  assume "ucs_step rows cols blocked vs = Inl (Inl KeyError)"
  then show False
  proof (cases rule: ucs_step_Inl)
    case (keyerror g c st path rest)
    from heappop_props(1)[OF keyerror(1,2)] have "st \<in> entry_state ` set (frontier vs)"
      by (force simp: entry_state_def)
    with assms keyerror(3) show False by (auto simp: frontier_keyed_def)
  qed simp_all
qed

lemma ucs_loop_no_KeyError:
  "frontier_keyed vs \<Longrightarrow> ucs_loop rows cols blocked vs \<noteq> Inl KeyError"
proof (rule ucs_loop_rule[where I = frontier_keyed and Q = "\<lambda>r. r \<noteq> Inl KeyError"])
  fix vs res assume "frontier_keyed vs" "ucs_step rows cols blocked vs = Inl res"
  then show "res \<noteq> Inl KeyError" using frontier_keyed_no_KeyError by auto
qed (auto intro: frontier_keyed_step)

lemma ucs_iterate_no_KeyError:
  "frontier_keyed vs \<Longrightarrow>
     (case ucs_iterate n rows cols blocked vs of
        Inl res \<Rightarrow> res \<noteq> Inl KeyError
      | Inr vs' \<Rightarrow> frontier_keyed vs')"
proof (induction n arbitrary: vs)
  case 0
  then show ?case by simp
next
  case (Suc n)
  show ?case
  proof (cases "ucs_step rows cols blocked vs")
    case (Inl res)
    with frontier_keyed_no_KeyError[OF Suc.prems, of rows cols blocked]
    show ?thesis by auto
  next
    case (Inr vs')
    with Suc.IH[OF frontier_keyed_step[OF Suc.prems Inr]] show ?thesis by simp
  qed
qed

text \<open>
  C10: the lookup g_best[state] of uniform-cost search never fails. After any number of
  passes of the loop from the initial variables, every state on the frontier is a key of
  g_best, so the next pass does not raise KeyError, and the search as a whole does not
  raise it.
\<close>

theorem g_best_lookup_never_fails:
  "uniform_cost_search rows cols blocked start dirty \<noteq> Inl KeyError \<and>
   (case ucs_iterate n rows cols blocked (ucs_init start dirty) of
      Inl res \<Rightarrow> res \<noteq> Inl KeyError
    | Inr vs \<Rightarrow> entry_state ` set (frontier vs) \<subseteq> dom (g_best vs) \<and>
               ucs_step rows cols blocked vs \<noteq> Inl (Inl KeyError))"
proof -
  have "case ucs_iterate n rows cols blocked (ucs_init start dirty) of
          Inl res \<Rightarrow> res \<noteq> Inl KeyError
        | Inr vs \<Rightarrow> frontier_keyed vs"
    by (rule ucs_iterate_no_KeyError[OF frontier_keyed_init])
  then show ?thesis
    using frontier_keyed_no_KeyError ucs_loop_no_KeyError[OF frontier_keyed_init]
    by (auto simp: frontier_keyed_def uniform_cost_search_def split: sum.splits)
qed

lemma dfs_counted_step:
  assumes "dfs_counted vs" "dfs_step rows cols blocked vs = Inr vs'"
  shows "dfs_counted vs'"
  using assms(2)
proof (cases rule: dfs_step_Inr)
  case (skip st path rest)
  with assms(1) show ?thesis by (simp add: dfs_counted_def)
next
  case (expand st path rest)
  with assms(1) show ?thesis by (simp add: dfs_counted_def pushed_def)
qed

lemma dfs_counted_result:
  assumes "dfs_counted vs" "dfs_step rows cols blocked vs = Inl res"
  shows "snd (snd res) \<le> fst (snd res)"
  using assms(2)
proof (cases rule: dfs_step_Inl)
  case empty
  with assms(1) show ?thesis by (simp add: dfs_counted_def)
next
  case (goal st path rest)
  with assms(1) show ?thesis by (simp add: dfs_counted_def)
qed

lemma dfs_loop_counted:
  "dfs_counted vs \<Longrightarrow>
     snd (snd (dfs_loop rows cols blocked vs)) \<le> fst (snd (dfs_loop rows cols blocked vs))"
  by (rule dfs_loop_rule[where I = dfs_counted]) (auto intro: dfs_counted_step dfs_counted_result)

lemma ucs_counted_relax: "ucs_counted vs \<Longrightarrow> ucs_counted (ucs_relax g path vs ap)"
  unfolding ucs_counted_def ucs_relax_def heappush_def
  by (cases ap) (auto simp: Let_def split: option.splits)

lemma ucs_counted_step:
  assumes "ucs_counted vs" "ucs_step rows cols blocked vs = Inr vs'"
  shows "ucs_counted vs'"
  using assms(2)
proof (cases rule: ucs_step_Inr)
  case (stale g c st path rest best)
  with heappop_props(3)[OF stale(1,2)] assms(1) show ?thesis
    by (simp add: ucs_counted_def)
next
  case (expand g c st path rest best)
  have "ucs_counted (vs\<lparr>frontier := rest, nodes_expanded := nodes_expanded vs + 1\<rparr>)"
    using heappop_props(3)[OF expand(1,2)] assms(1) by (simp add: ucs_counted_def)
  then show ?thesis unfolding expand(6)
    by (rule foldl_ucs_relax_rule) (rule ucs_counted_relax)
qed

lemma ucs_counted_result:
  assumes "ucs_counted vs" "ucs_step rows cols blocked vs = Inl (Inr res)"
  shows "snd (snd res) \<le> fst (snd res)"
  using assms(2)
proof (cases rule: ucs_step_Inl)
  case empty
  with assms(1) show ?thesis by (simp add: ucs_counted_def)
next
  case (keyerror g c st path rest)
  then show ?thesis by simp
next
  case (goal g c st path rest best)
  with heappop_props(3)[OF goal(1,2)] assms(1) show ?thesis by (simp add: ucs_counted_def)
qed

lemma ucs_loop_counted:
  "ucs_counted vs \<Longrightarrow>
     (case ucs_loop rows cols blocked vs of
        Inl err \<Rightarrow> True
      | Inr res \<Rightarrow> snd (snd res) \<le> fst (snd res))"
proof (rule ucs_loop_rule[where I = ucs_counted])
  fix vs res assume "ucs_counted vs" "ucs_step rows cols blocked vs = Inl res"
  then show "case res of Inl err \<Rightarrow> True | Inr res \<Rightarrow> snd (snd res) \<le> fst (snd res)"
    using ucs_counted_result by (cases res) auto
qed (auto intro: ucs_counted_step)

lemma dfs_goal_at_start:
  "depth_first_search rows cols blocked start {||} = (Some [], 1, 1)"
  unfolding depth_first_search_def
  by (subst dfs_loop.simps) (simp add: dfs_step_def dfs_init_def is_goal_def)

lemma ucs_goal_at_start:
  "uniform_cost_search rows cols blocked start {||} = Inr (Some [], 1, 1)"
  unfolding uniform_cost_search_def
  by (subst ucs_loop.simps)
     (simp add: ucs_step_def ucs_init_def is_goal_def heappush_def heappop_def)

text \<open>
  C7: for either search the counters returned satisfy expanded <= generated; and when the
  initial dirty set is empty both searches return the empty plan with generated = 1 and
  expanded = 1.
\<close>

theorem counters_invariant:
  "(\<exists>plan gen exp. depth_first_search rows cols blocked start dirty = (plan, gen, exp)
       \<and> exp \<le> gen) \<and>
   (\<exists>plan gen exp. uniform_cost_search rows cols blocked start dirty = Inr (plan, gen, exp)
       \<and> exp \<le> gen) \<and>
   (dirty = {||} \<longrightarrow>
      depth_first_search rows cols blocked start dirty = (Some [], 1, 1) \<and>
      uniform_cost_search rows cols blocked start dirty = Inr (Some [], 1, 1))"
proof -
  have d0: "dfs_counted (dfs_init start dirty)"
    by (simp add: dfs_counted_def dfs_init_def)
  have u0: "ucs_counted (ucs_init start dirty)"
    by (simp add: ucs_counted_def ucs_init_def heappush_def)
  obtain plan gen exp where d: "depth_first_search rows cols blocked start dirty = (plan, gen, exp)"
    by (cases "depth_first_search rows cols blocked start dirty") auto
  with dfs_loop_counted[OF d0, of rows cols blocked] have "exp \<le> gen"
    by (simp add: depth_first_search_def)
  with d have 1: "\<exists>plan gen exp.
      depth_first_search rows cols blocked start dirty = (plan, gen, exp) \<and> exp \<le> gen"
    by blast
  have "uniform_cost_search rows cols blocked start dirty \<noteq> Inl KeyError"
    unfolding uniform_cost_search_def by (rule ucs_loop_no_KeyError[OF frontier_keyed_init])
  then obtain res where u: "uniform_cost_search rows cols blocked start dirty = Inr res"
    by (cases "uniform_cost_search rows cols blocked start dirty") (auto intro: error.exhaust)
  obtain p g e where res: "res = (p, g, e)" by (cases res) auto
  from ucs_loop_counted[OF u0, of rows cols blocked] u res have "e \<le> g"
    by (simp add: uniform_cost_search_def)
  with u res have 2: "\<exists>plan gen exp.
      uniform_cost_search rows cols blocked start dirty = Inr (plan, gen, exp) \<and> exp \<le> gen"
    by blast
  show ?thesis using 1 2 dfs_goal_at_start ucs_goal_at_start by auto
qed

theorem counters_invariant_witness:
  "depth_first_search 1 1 {} (0, 0) {||} = (Some [], 1, 1) \<and>
   uniform_cost_search 1 1 {} (0, 0) {||} = Inr (Some [], 1, 1)"
  using counters_invariant[of 1 1 "{}" "(0, 0)" "{||}"] by simp

section \<open>One pass of uniform-cost search; totality of the transition model\<close>

text \<open>
  C8: in a pass of the loop of uniform-cost search, when the cost of the popped entry exceeds
  the best-known cost of its state, the entry is discarded: the loop goes on with the
  variables unchanged but for the popped entry (no counter moves, nothing is pushed).
  Otherwise the pass counts exactly one more expanded node, in the variables it goes on with
  or in the result it returns.
\<close>

theorem obsolete_entry_discarded:
  assumes "frontier vs \<noteq> []"
    and "heappop (frontier vs) = ((g, c, st, path), rest)"
    and "g_best vs st = Some best"
  shows "(best < g \<longrightarrow> ucs_step rows cols blocked vs = Inr (vs\<lparr>frontier := rest\<rparr>)) \<and>
         (\<not> best < g \<longrightarrow>
            (case ucs_step rows cols blocked vs of
               Inl (Inl err) \<Rightarrow> False
             | Inl (Inr (plan, gen, exp)) \<Rightarrow> is_goal st \<and> exp = nodes_expanded vs + 1
             | Inr vs' \<Rightarrow> \<not> is_goal st \<and> nodes_expanded vs' = nodes_expanded vs + 1))"
proof -
  have "nodes_expanded (foldl (ucs_relax g path) vs0 succs) = nodes_expanded vs0" for vs0 succs
    by (rule foldl_ucs_relax_rule[where I = "\<lambda>v. nodes_expanded v = nodes_expanded vs0"])
       (auto simp: ucs_relax_def Let_def split: prod.splits option.splits)
  with assms show ?thesis
    by (auto simp: ucs_step_def Let_def)
qed

theorem obsolete_entry_discarded_witness:
  "ucs_step 1 3 {}
     \<lparr>nodes_generated = 3, nodes_expanded = 1,
      frontier = [(5, 1, ((0, 1), {||}), [E]), (7, 2, ((0, 2), {||}), [E, E])],
      g_best = [((0, 1), {||}) \<mapsto> 3, ((0, 2), {||}) \<mapsto> 7], counter = 3\<rparr>
   = Inr \<lparr>nodes_generated = 3, nodes_expanded = 1,
      frontier = [(7, 2, ((0, 2), {||}), [E, E])],
      g_best = [((0, 1), {||}) \<mapsto> 3, ((0, 2), {||}) \<mapsto> 7], counter = 3\<rparr> \<and>
   (\<exists>plan gen. ucs_step 1 3 {}
     \<lparr>nodes_generated = 3, nodes_expanded = 1,
      frontier = [(7, 2, ((0, 2), {||}), [E, E])],
      g_best = [((0, 1), {||}) \<mapsto> 3, ((0, 2), {||}) \<mapsto> 7], counter = 3\<rparr>
   = Inl (Inr (plan, gen, 2)))"
proof -
  let ?g = "[((0, 1), {||}) \<mapsto> 3, ((0, 2), {||}) \<mapsto> 7] :: state \<rightharpoonup> nat"
  let ?e1 = "(5, 1, ((0, 1), {||}), [E]) :: entry"
  let ?e2 = "(7, 2, ((0, 2), {||}), [E, E]) :: entry"
  let ?vs = "\<lparr>nodes_generated = 3, nodes_expanded = 1, frontier = [?e1, ?e2],
              g_best = ?g, counter = 3\<rparr>"
  let ?vs2 = "\<lparr>nodes_generated = 3, nodes_expanded = 1, frontier = [?e2],
              g_best = ?g, counter = 3\<rparr>"
  have a: "frontier ?vs \<noteq> []" by simp
  have b: "heappop (frontier ?vs) = (?e1, [?e2])"
    by (simp add: heappop_def entry_key_def)
  have c: "g_best ?vs ((0, 1), {||}) = Some 3" by simp
  have a2: "frontier ?vs2 \<noteq> []" by simp
  have b2: "heappop (frontier ?vs2) = (?e2, [])"
    by (simp add: heappop_def entry_key_def)
  have c2: "g_best ?vs2 ((0, 2), {||}) = Some 7" by simp
  from obsolete_entry_discarded[OF a b c, of 1 3 "{}"]
  have 1: "ucs_step 1 3 {} ?vs = Inr ?vs2" by simp
  from obsolete_entry_discarded[OF a2 b2 c2, of 1 3 "{}"]
  have 2: "\<exists>plan gen. ucs_step 1 3 {} ?vs2 = Inl (Inr (plan, gen, 2))"
    by (cases "ucs_step 1 3 {} ?vs2") (auto simp: is_goal_def split: sum.splits)
  from 1 2 show ?thesis by blast
qed

lemma map_fst_if: "map fst (if b then [(a, t)] else []) = (if b then [a] else [])"
  by simp

lemma map_fst_successors:
  "map fst (successors st rows cols blocked) = successor_actions st rows cols blocked"
proof -
  obtain r c dirty where st: "st = ((r, c), dirty)" by (cases st) auto
  show ?thesis
    unfolding st successors_expand successor_actions_def within_bounds_def map_append map_fst_if
    by simp
qed

lemma in_if_single: "x \<in> set (if b then [y] else []) \<longleftrightarrow> b \<and> x = y"
  by auto

lemma successor_actions_member:
  "(V \<in> set (successor_actions ((r, c), dirty) rows cols blocked) \<longleftrightarrow> (r, c) |\<in>| dirty) \<and>
   (N \<in> set (successor_actions ((r, c), dirty) rows cols blocked) \<longleftrightarrow>
      within_bounds rows cols (r - 1, c) \<and> (r - 1, c) \<notin> blocked) \<and>
   (S \<in> set (successor_actions ((r, c), dirty) rows cols blocked) \<longleftrightarrow>
      within_bounds rows cols (r + 1, c) \<and> (r + 1, c) \<notin> blocked) \<and>
   (E \<in> set (successor_actions ((r, c), dirty) rows cols blocked) \<longleftrightarrow>
      within_bounds rows cols (r, c + 1) \<and> (r, c + 1) \<notin> blocked) \<and>
   (W \<in> set (successor_actions ((r, c), dirty) rows cols blocked) \<longleftrightarrow>
      within_bounds rows cols (r, c - 1) \<and> (r, c - 1) \<notin> blocked)"
  unfolding successor_actions_def
  by (simp only: prod.case fst_conv snd_conv set_append Un_iff in_if_single action.distinct
      simp_thms)

text \<open>
  C6: successor generation and the goal test are total and raise nothing (their models have
  no error value, as the source has no failing operation on a well-formed state): an action
  is among the successors exactly when its precondition holds, and is left out otherwise;
  the goal test is decided by the dirty set being empty; and a search whose frontier is
  exhausted returns "no plan" with the counters, as an ordinary value.
\<close>

theorem successors_total_actions_omitted:
  "(V \<in> fst ` set (successors ((r, c), dirty) rows cols blocked) \<longleftrightarrow> (r, c) |\<in>| dirty) \<and>
   (N \<in> fst ` set (successors ((r, c), dirty) rows cols blocked) \<longleftrightarrow>
      within_bounds rows cols (r - 1, c) \<and> (r - 1, c) \<notin> blocked) \<and>
   (S \<in> fst ` set (successors ((r, c), dirty) rows cols blocked) \<longleftrightarrow>
      within_bounds rows cols (r + 1, c) \<and> (r + 1, c) \<notin> blocked) \<and>
   (E \<in> fst ` set (successors ((r, c), dirty) rows cols blocked) \<longleftrightarrow>
      within_bounds rows cols (r, c + 1) \<and> (r, c + 1) \<notin> blocked) \<and>
   (W \<in> fst ` set (successors ((r, c), dirty) rows cols blocked) \<longleftrightarrow>
      within_bounds rows cols (r, c - 1) \<and> (r, c - 1) \<notin> blocked) \<and>
   is_goal ((r, c), dirty) = (dirty = {||}) \<and>
   dfs_loop rows cols blocked
     \<lparr>nodes_generated = gen, nodes_expanded = exp, stack = [], visited = vis\<rparr>
     = (None, gen, exp) \<and>
   ucs_loop rows cols blocked
     \<lparr>nodes_generated = gen, nodes_expanded = exp, frontier = [], g_best = best,
      counter = cnt\<rparr>
     = Inr (None, gen, exp)"
proof -
  have "is_goal ((r, c), dirty) = (dirty = {||})"
    by (simp add: is_goal_def fcard_0_eq)
  moreover have "dfs_loop rows cols blocked
     \<lparr>nodes_generated = gen, nodes_expanded = exp, stack = [], visited = vis\<rparr>
     = (None, gen, exp)"
    by (subst dfs_loop.simps) (simp add: dfs_step_def)
  moreover have "ucs_loop rows cols blocked
     \<lparr>nodes_generated = gen, nodes_expanded = exp, frontier = [], g_best = best,
      counter = cnt\<rparr>
     = Inr (None, gen, exp)"
    by (subst ucs_loop.simps) (simp add: ucs_step_def)
  moreover have "fst ` set (successors ((r, c), dirty) rows cols blocked) =
      set (successor_actions ((r, c), dirty) rows cols blocked)"
    by (metis map_fst_successors set_map)
  ultimately show ?thesis
    using successor_actions_member[of r c dirty rows cols blocked] by simp
qed

section \<open>Goal correctness of returned plans\<close>

lemma apply_plan_append:
  "apply_plan rows cols blocked st (p @ q) =
     (case apply_plan rows cols blocked st p of
        None \<Rightarrow> None
      | Some st' \<Rightarrow> apply_plan rows cols blocked st' q)"
  by (induction p arbitrary: st) (auto split: option.splits)

lemma distinct_successor_actions: "distinct (successor_actions st rows cols blocked)"
  by (cases st) (auto simp: successor_actions_def)

lemma map_of_successors:
  "(a, t) \<in> set (successors st rows cols blocked) \<Longrightarrow>
     map_of (successors st rows cols blocked) a = Some t"
  by (rule map_of_is_SomeI)
     (simp_all add: map_fst_successors distinct_successor_actions)

lemma map_of_successors_iff:
  "map_of (successors st rows cols blocked) a = Some t \<longleftrightarrow>
     (a, t) \<in> set (successors st rows cols blocked)"
  using map_of_successors map_of_SomeD by fast

lemma apply_plan_snoc:
  assumes "apply_plan rows cols blocked s0 path = Some st"
    and "(a, t) \<in> set (successors st rows cols blocked)"
  shows "apply_plan rows cols blocked s0 (path @ [a]) = Some t"
  using assms by (simp add: apply_plan_append map_of_successors)

lemma stack_valid_step:
  assumes "stack_valid rows cols blocked s0 vs" "dfs_step rows cols blocked vs = Inr vs'"
  shows "stack_valid rows cols blocked s0 vs'"
  using assms(2)
proof (cases rule: dfs_step_Inr)
  case (skip st path rest)
  with assms(1) show ?thesis by (simp add: stack_valid_def)
next
  case (expand st path rest)
  from assms(1) expand(1) have p: "apply_plan rows cols blocked s0 path = Some st"
    and r: "\<forall>e\<in>set rest. apply_plan rows cols blocked s0 (snd e) = Some (fst e)"
    by (simp_all add: stack_valid_def)
  have "apply_plan rows cols blocked s0 (snd e) = Some (fst e)"
    if "e \<in> set (pushed path (sort_key action_key (successors st rows cols blocked)))" for e
  proof -
    from that obtain a t where "(a, t) \<in> set (successors st rows cols blocked)"
      "e = (t, path @ [a])" by (auto simp: pushed_def)
    with apply_plan_snoc[OF p] show ?thesis by simp
  qed
  with r show ?thesis unfolding stack_valid_def expand(4) by auto
qed

lemma stack_valid_result:
  assumes "stack_valid rows cols blocked s0 vs"
    "dfs_step rows cols blocked vs = Inl (Some plan, gen, exp)"
  shows "reaches_goal rows cols blocked s0 plan"
  using assms(2)
proof (cases rule: dfs_step_Inl)
  case empty
  then show ?thesis by simp
next
  case (goal st path rest)
  with assms(1) show ?thesis by (simp add: stack_valid_def reaches_goal_def)
qed

lemma dfs_loop_plan_valid:
  assumes "stack_valid rows cols blocked s0 vs"
  shows "case dfs_loop rows cols blocked vs of
           (None, gen, exp) \<Rightarrow> True
         | (Some plan, gen, exp) \<Rightarrow> reaches_goal rows cols blocked s0 plan"
proof (rule dfs_loop_rule[where I = "stack_valid rows cols blocked s0", OF assms])
  fix vs res
  assume "stack_valid rows cols blocked s0 vs" "dfs_step rows cols blocked vs = Inl res"
  then show "case res of (None, gen, exp) \<Rightarrow> True
      | (Some plan, gen, exp) \<Rightarrow> reaches_goal rows cols blocked s0 plan"
    using stack_valid_result by (cases res) (auto split: option.splits)
qed (rule stack_valid_step)

lemma entries_valid_relax:
  assumes "entries_valid rows cols blocked s0 (frontier vs)"
    and "apply_plan rows cols blocked s0 path = Some st" "length path = g"
    and "ap \<in> set (successors st rows cols blocked)"
  shows "entries_valid rows cols blocked s0 (frontier (ucs_relax g path vs ap))"
proof -
  obtain a t where ap: "ap = (a, t)" by (cases ap) auto
  with assms(2,4) have "apply_plan rows cols blocked s0 (path @ [a]) = Some t"
    by (intro apply_plan_snoc) auto
  with assms(1,3) show ?thesis
    by (auto simp: entries_valid_def ucs_relax_def ap heappush_def Let_def split: option.splits)
qed

lemma entries_valid_step:
  assumes "entries_valid rows cols blocked s0 (frontier vs)"
    "ucs_step rows cols blocked vs = Inr vs'"
  shows "entries_valid rows cols blocked s0 (frontier vs')"
  using assms(2)
proof (cases rule: ucs_step_Inr)
  case (stale g c st path rest best)
  with heappop_props(4)[OF stale(1,2)] assms(1) show ?thesis
    by (auto simp: entries_valid_def)
next
  case (expand g c st path rest best)
  from heappop_props(1)[OF expand(1,2)] assms(1)
  have p: "apply_plan rows cols blocked s0 path = Some st" "length path = g"
    by (auto simp: entries_valid_def)
  have "entries_valid rows cols blocked s0
          (frontier (vs\<lparr>frontier := rest, nodes_expanded := nodes_expanded vs + 1\<rparr>))"
    using heappop_props(4)[OF expand(1,2)] assms(1) by (auto simp: entries_valid_def)
  then show ?thesis unfolding expand(6)
    by (rule foldl_ucs_relax_rule[where I = "\<lambda>v. entries_valid rows cols blocked s0 (frontier v)"])
       (rule entries_valid_relax[OF _ p])
qed

lemma entries_valid_result:
  assumes "entries_valid rows cols blocked s0 (frontier vs)"
    "ucs_step rows cols blocked vs = Inl (Inr (Some plan, gen, exp))"
  shows "reaches_goal rows cols blocked s0 plan"
  using assms(2)
proof (cases rule: ucs_step_Inl)
  case (goal g c st path rest best)
  with heappop_props(1)[OF goal(1,2)] assms(1) show ?thesis
    by (auto simp: entries_valid_def reaches_goal_def)
qed simp_all

lemma ucs_loop_plan_valid:
  assumes "entries_valid rows cols blocked s0 (frontier vs)"
  shows "case ucs_loop rows cols blocked vs of
           Inr (Some plan, gen, exp) \<Rightarrow> reaches_goal rows cols blocked s0 plan
         | _ \<Rightarrow> True"
proof (rule ucs_loop_rule[where I = "\<lambda>v. entries_valid rows cols blocked s0 (frontier v)",
      OF assms])
  fix vs res
  assume "entries_valid rows cols blocked s0 (frontier vs)"
    "ucs_step rows cols blocked vs = Inl res"
  then show "case res of
      Inr (Some plan, gen, exp) \<Rightarrow> reaches_goal rows cols blocked s0 plan | _ \<Rightarrow> True"
    using entries_valid_result by (auto split: sum.splits option.splits)
qed (rule entries_valid_step)

lemma stack_valid_init: "stack_valid rows cols blocked (start, dirty) (dfs_init start dirty)"
  by (simp add: stack_valid_def dfs_init_def)

lemma entries_valid_init:
  "entries_valid rows cols blocked (start, dirty) (frontier (ucs_init start dirty))"
  by (simp add: entries_valid_def ucs_init_def heappush_def)

text \<open>
  C4: a plan returned by either search, applied action by action to the start state, can be
  applied in full and ends in a state whose dirty set is empty.
\<close>

theorem returned_plan_reaches_goal:
  "(depth_first_search rows cols blocked start dirty = (Some plan, gen, exp) \<longrightarrow>
      (\<exists>st. apply_plan rows cols blocked (start, dirty) plan = Some st \<and> snd st = {||})) \<and>
   (uniform_cost_search rows cols blocked start dirty = Inr (Some plan, gen, exp) \<longrightarrow>
      (\<exists>st. apply_plan rows cols blocked (start, dirty) plan = Some st \<and> snd st = {||}))"
proof -
  have goal: "\<exists>st. apply_plan rows cols blocked (start, dirty) plan = Some st \<and> snd st = {||}"
    if "reaches_goal rows cols blocked (start, dirty) plan"
    using that by (auto simp: reaches_goal_def is_goal_def fcard_0_eq split: option.splits)
  have d: "reaches_goal rows cols blocked (start, dirty) plan"
    if "depth_first_search rows cols blocked start dirty = (Some plan, gen, exp)"
    using dfs_loop_plan_valid[OF stack_valid_init, of rows cols blocked start dirty] that
    by (simp add: depth_first_search_def)
  have u: "reaches_goal rows cols blocked (start, dirty) plan"
    if "uniform_cost_search rows cols blocked start dirty = Inr (Some plan, gen, exp)"
    using ucs_loop_plan_valid[OF entries_valid_init, of rows cols blocked start dirty] that
    by (simp add: uniform_cost_search_def)
  show ?thesis using d u goal by blast
qed

theorem returned_plan_reaches_goal_witness:
  "apply_plan 1 3 {} ((0, 1), {|(0, 0), (0, 2)|}) [E, V, W, W, V] = Some ((0, 0), {||})"
proof -
  have d: "depth_first_search 1 3 {} (0, 1) {|(0, 0), (0, 2)|} = (Some [E, V, W, W, V], 10, 6)"
    by code_simp
  have u: "uniform_cost_search 1 3 {} (0, 1) {|(0, 0), (0, 2)|}
      = Inr (Some [E, V, W, W, V], 11, 10)"
    by code_simp
  from returned_plan_reaches_goal[of 1 3 "{}" "(0, 1)" "{|(0, 0), (0, 2)|}" "[E, V, W, W, V]"]
    d u
  obtain st where "apply_plan 1 3 {} ((0, 1), {|(0, 0), (0, 2)|}) [E, V, W, W, V] = Some st"
    "snd st = {||}" by blast
  moreover have "fst (the (apply_plan 1 3 {} ((0, 1), {|(0, 0), (0, 2)|}) [E, V, W, W, V]))
      = (0, 0)"
    by code_simp
  ultimately show ?thesis by (cases st) auto
qed

section \<open>Completeness of depth-first search\<close>

lemma closed_set_plan:
  assumes "\<forall>s\<in>A. snd ` set (successors s rows cols blocked) \<subseteq> A"
    and "s \<in> A" "apply_plan rows cols blocked s p = Some t"
  shows "t \<in> A"
  using assms(2,3)
proof (induction p arbitrary: s)
  case Nil
  then show ?case by simp
next
  case (Cons a p)
  from Cons.prems(2) obtain s' where s': "map_of (successors s rows cols blocked) a = Some s'"
    "apply_plan rows cols blocked s' p = Some t"
    by (auto split: option.splits)
  from s'(1) have "(a, s') \<in> set (successors s rows cols blocked)" by (rule map_of_SomeD)
  then have "s' \<in> snd ` set (successors s rows cols blocked)" by force
  with assms(1) Cons.prems(1) have "s' \<in> A" by blast
  then show ?case using s'(2) by (rule Cons.IH)
qed

lemma fst_set_pushed: "fst ` set (pushed path succs) = snd ` set succs"
  by (induction succs) (simp_all add: pushed_def)

lemma dfs_closed_step:
  assumes "dfs_closed rows cols blocked s0 vs" "dfs_step rows cols blocked vs = Inr vs'"
  shows "dfs_closed rows cols blocked s0 vs'"
  using assms(2)
proof (cases rule: dfs_step_Inr)
  case (skip st path rest)
  have "visited vs \<union> fst ` set (stack vs) = visited vs \<union> fst ` set rest"
    using skip by auto
  with assms(1) show ?thesis unfolding dfs_closed_def skip(3) by simp
next
  case (expand st path rest)
  let ?succs = "successors st rows cols blocked"
  have vis: "visited vs' = insert st (visited vs)"
    and stk: "fst ` set (stack vs') = snd ` set ?succs \<union> fst ` set rest"
    unfolding expand(4) by (simp_all add: fst_set_pushed image_Un)
  have old: "visited vs \<union> fst ` set (stack vs) \<subseteq> visited vs' \<union> fst ` set (stack vs')"
    unfolding vis stk using expand(1) by auto
  have "s0 \<in> visited vs' \<union> fst ` set (stack vs')"
    using assms(1) old unfolding dfs_closed_def by blast
  moreover have "\<not> is_goal s \<and>
      snd ` set (successors s rows cols blocked) \<subseteq> visited vs' \<union> fst ` set (stack vs')"
    if "s \<in> visited vs'" for s
  proof (cases "s = st")
    case True
    then show ?thesis using expand(3) stk by auto
  next
    case False
    with that vis have "s \<in> visited vs" by simp
    with assms(1) old show ?thesis unfolding dfs_closed_def by blast
  qed
  ultimately show ?thesis unfolding dfs_closed_def by blast
qed

lemma dfs_closed_result:
  assumes "dfs_closed rows cols blocked s0 vs"
    "dfs_step rows cols blocked vs = Inl (None, gen, exp)"
  shows "\<not> reaches_goal rows cols blocked s0 p"
  using assms(2)
proof (cases rule: dfs_step_Inl)
  case empty
  with assms(1) have s0: "s0 \<in> visited vs"
    and cl: "\<forall>s\<in>visited vs. snd ` set (successors s rows cols blocked) \<subseteq> visited vs"
    and ng: "\<forall>s\<in>visited vs. \<not> is_goal s"
    unfolding dfs_closed_def by auto
  show ?thesis
  proof
    assume "reaches_goal rows cols blocked s0 p"
    then obtain t where t: "apply_plan rows cols blocked s0 p = Some t" "is_goal t"
      by (auto simp: reaches_goal_def split: option.splits)
    from closed_set_plan[OF cl s0 t(1)] ng t(2) show False by blast
  qed
next
  case (goal st path rest)
  then show ?thesis by simp
qed

lemma dfs_loop_complete:
  assumes "dfs_closed rows cols blocked s0 vs" "reaches_goal rows cols blocked s0 p"
  shows "fst (dfs_loop rows cols blocked vs) \<noteq> None"
proof (rule dfs_loop_rule[where I = "dfs_closed rows cols blocked s0", OF assms(1)])
  fix vs res
  assume "dfs_closed rows cols blocked s0 vs" "dfs_step rows cols blocked vs = Inl res"
  with dfs_closed_result[of rows cols blocked s0 vs "fst (snd res)" "snd (snd res)" p] assms(2)
  show "fst res \<noteq> None" by (cases res) auto
qed (rule dfs_closed_step)

lemma dfs_closed_init: "dfs_closed rows cols blocked (start, dirty) (dfs_init start dirty)"
  by (simp add: dfs_closed_def dfs_init_def)

text \<open>
  C5: when some plan leads from the start state to a goal state, depth-first search returns
  a plan (not "no plan"), and that plan reaches a goal state; it need not be a shortest one.
\<close>

theorem depth_first_search_complete:
  assumes "reaches_goal rows cols blocked (start, dirty) p"
  shows "\<exists>plan gen exp. depth_first_search rows cols blocked start dirty = (Some plan, gen, exp) \<and>
           reaches_goal rows cols blocked (start, dirty) plan"
proof -
  from dfs_loop_complete[OF dfs_closed_init assms]
  obtain plan gen exp where
    r: "depth_first_search rows cols blocked start dirty = (Some plan, gen, exp)"
    unfolding depth_first_search_def
    by (cases "dfs_loop rows cols blocked (dfs_init start dirty)") auto
  with dfs_loop_plan_valid[OF stack_valid_init, of rows cols blocked start dirty]
  have "reaches_goal rows cols blocked (start, dirty) plan"
    by (simp add: depth_first_search_def)
  with r show ?thesis by blast
qed

theorem depth_first_search_complete_witness:
  "reaches_goal 1 3 {} ((0, 1), {|(0, 0), (0, 2)|}) [W, V, E, E, V] \<and>
   (\<exists>plan gen exp. depth_first_search 1 3 {} (0, 1) {|(0, 0), (0, 2)|} = (Some plan, gen, exp) \<and>
      reaches_goal 1 3 {} ((0, 1), {|(0, 0), (0, 2)|}) plan)"
proof -
  have h: "reaches_goal 1 3 {} ((0, 1), {|(0, 0), (0, 2)|}) [W, V, E, E, V]"
    by code_simp
  from h depth_first_search_complete[OF h] show ?thesis by blast
qed

section \<open>Optimality of uniform-cost search\<close>

lemma ucs_relax_cases:
  obtains (keep) "ucs_relax g path vs ap = vs"
      "\<exists>w. g_best vs (snd ap) = Some w \<and> w \<le> g + 1"
  | (push) "ucs_relax g path vs ap =
        vs\<lparr>g_best := (g_best vs)(snd ap \<mapsto> g + 1),
           frontier := frontier vs @ [(g + 1, counter vs, snd ap, path @ [fst ap])],
           counter := counter vs + 1,
           nodes_generated := nodes_generated vs + 1\<rparr>"
      "\<forall>w. g_best vs (snd ap) = Some w \<longrightarrow> g + 1 < w"
proof (cases "case g_best vs (snd ap) of None \<Rightarrow> True | Some p \<Rightarrow> g + 1 < p")
  case True
  then have "ucs_relax g path vs ap =
        vs\<lparr>g_best := (g_best vs)(snd ap \<mapsto> g + 1),
           frontier := frontier vs @ [(g + 1, counter vs, snd ap, path @ [fst ap])],
           counter := counter vs + 1,
           nodes_generated := nodes_generated vs + 1\<rparr>"
    by (cases ap) (auto simp: ucs_relax_def Let_def heappush_def split: option.splits)
  moreover from True have "\<forall>w. g_best vs (snd ap) = Some w \<longrightarrow> g + 1 < w"
    by (auto split: option.splits)
  ultimately show ?thesis by (rule push)
next
  case False
  then have "ucs_relax g path vs ap = vs"
    by (cases ap) (auto simp: ucs_relax_def Let_def split: option.splits)
  moreover from False have "\<exists>w. g_best vs (snd ap) = Some w \<and> w \<le> g + 1"
    by (auto split: option.splits)
  ultimately show ?thesis by (rule keep)
qed

lemma start_cost_relax:
  "g_best vs s0 = Some 0 \<Longrightarrow> g_best (ucs_relax g path vs ap) s0 = Some 0"
  by (cases rule: ucs_relax_cases[of g path vs ap]) auto

lemma entries_known_relax: "entries_known vs \<Longrightarrow> entries_known (ucs_relax g path vs ap)"
proof (cases rule: ucs_relax_cases[of g path vs ap])
  case keep
  assume "entries_known vs"
  with keep show ?thesis by simp
next
  case push
  assume a: "entries_known vs"
  show ?thesis
    unfolding entries_known_def
  proof
    fix e assume "e \<in> set (frontier (ucs_relax g path vs ap))"
    then consider "e \<in> set (frontier vs)" | "e = (g + 1, counter vs, snd ap, path @ [fst ap])"
      unfolding push(1) by auto
    then show "\<exists>v. g_best (ucs_relax g path vs ap) (entry_state e) = Some v \<and> v \<le> fst e"
    proof cases
      case 1
      with a obtain v where v: "g_best vs (entry_state e) = Some v" "v \<le> fst e"
        unfolding entries_known_def by blast
      show ?thesis
      proof (cases "entry_state e = snd ap")
        case True
        with v push(2) have "g + 1 < v" by simp
        with v True show ?thesis unfolding push(1) by simp
      next
        case False
        with v show ?thesis unfolding push(1) by simp
      qed
    next
      case 2
      then show ?thesis unfolding push(1) by (simp add: entry_state_def)
    qed
  qed
qed

lemma queued_mono: "queued es s v \<Longrightarrow> set es \<subseteq> set es' \<Longrightarrow> queued es' s v"
  unfolding queued_def by blast

lemma closed_at_mono:
  "closed_at rows cols blocked m s v \<Longrightarrow> not_worse m m' \<Longrightarrow> closed_at rows cols blocked m' s v"
  unfolding closed_at_def not_worse_def by (meson order_trans)

lemma not_worse_relax: "not_worse (g_best vs) (g_best (ucs_relax g path vs ap))"
  using relaxed_step[of ap vs g path] unfolding relaxed_def by blast

lemma frontier_relax_mono: "set (frontier vs) \<subseteq> set (frontier (ucs_relax g path vs ap))"
  by (cases rule: ucs_relax_cases[of g path vs ap]) auto

lemma settled_but_relax:
  assumes "settled_but rows cols blocked st g vs"
  shows "settled_but rows cols blocked st g (ucs_relax g path vs ap)"
  unfolding settled_but_def
proof (intro allI impI)
  let ?vs' = "ucs_relax g path vs ap"
  fix s v assume sv: "g_best ?vs' s = Some v"
  show "queued (frontier ?vs') s v \<or>
        (if s = st then v = g else closed_at rows cols blocked (g_best ?vs') s v)"
  proof (cases "g_best vs s = Some v")
    case True
    with assms have "queued (frontier vs) s v \<or>
        (if s = st then v = g else closed_at rows cols blocked (g_best vs) s v)"
      unfolding settled_but_def by blast
    moreover have "queued (frontier ?vs') s v" if "queued (frontier vs) s v"
      using that by (rule queued_mono) (rule frontier_relax_mono)
    moreover have "closed_at rows cols blocked (g_best ?vs') s v"
      if "closed_at rows cols blocked (g_best vs) s v"
      using that by (rule closed_at_mono) (rule not_worse_relax)
    ultimately show ?thesis
      by (auto split: if_splits)
  next
    case False
    with sv have "ucs_relax g path vs ap \<noteq> vs" by auto
    then have eq: "ucs_relax g path vs ap =
        vs\<lparr>g_best := (g_best vs)(snd ap \<mapsto> g + 1),
           frontier := frontier vs @ [(g + 1, counter vs, snd ap, path @ [fst ap])],
           counter := counter vs + 1,
           nodes_generated := nodes_generated vs + 1\<rparr>"
      by (cases rule: ucs_relax_cases[of g path vs ap]) auto
    with sv False have "s = snd ap" "v = g + 1"
      by (auto split: if_splits)
    then have "queued (frontier ?vs') s v"
      unfolding eq queued_def by (simp add: entry_state_def)
    then show ?thesis by blast
  qed
qed

lemma successors_recorded:
  "\<forall>t\<in>snd ` set succs.
     \<exists>w. g_best (foldl (ucs_relax g path) vs succs) t = Some w \<and> w \<le> g + 1"
proof (induction succs arbitrary: vs)
  case Nil
  show ?case by simp
next
  case (Cons ap succs)
  let ?vs1 = "ucs_relax g path vs ap"
  have "\<exists>w. g_best ?vs1 (snd ap) = Some w \<and> w \<le> g + 1"
    by (cases rule: ucs_relax_cases[of g path vs ap]) auto
  moreover have "not_worse (g_best ?vs1) (g_best (foldl (ucs_relax g path) ?vs1 succs))"
    using relaxed_foldl[of succs ?vs1 g path] unfolding relaxed_def by blast
  ultimately have "\<exists>w. g_best (foldl (ucs_relax g path) ?vs1 succs) (snd ap) = Some w \<and> w \<le> g + 1"
    unfolding not_worse_def by (meson order_trans)
  with Cons.IH[of ?vs1] show ?case by simp
qed

lemma ucs_inv_step:
  assumes inv: "ucs_inv rows cols blocked s0 vs" and step: "ucs_step rows cols blocked vs = Inr vs'"
  shows "ucs_inv rows cols blocked s0 vs'"
proof -
  from inv have s0: "g_best vs s0 = Some 0"
    and valid: "entries_valid rows cols blocked s0 (frontier vs)"
    and known: "entries_known vs"
    and settled: "settled rows cols blocked vs"
    unfolding ucs_inv_def by auto
  have valid': "entries_valid rows cols blocked s0 (frontier vs')"
    using valid step by (rule entries_valid_step)
  from step show ?thesis
  proof (cases rule: ucs_step_Inr)
    case (stale g c st path rest best)
    note hp = heappop_props[OF stale(1,2)]
    have "entries_known vs'"
      using known hp(4) unfolding entries_known_def stale(5) by auto
    moreover have "settled rows cols blocked vs'"
      unfolding settled_def
    proof (intro allI impI)
      fix s v assume "g_best vs' s = Some v"
      then have sv: "g_best vs s = Some v" unfolding stale(5) by simp
      with settled consider "queued (frontier vs) s v"
        | "closed_at rows cols blocked (g_best vs) s v"
        unfolding settled_def by blast
      then show "queued (frontier vs') s v \<or> closed_at rows cols blocked (g_best vs') s v"
      proof cases
        case 1
        then obtain e where e: "e \<in> set (frontier vs)" "fst e = v" "entry_state e = s"
          unfolding queued_def by blast
        have "e \<noteq> (g, c, st, path)"
        proof
          assume "e = (g, c, st, path)"
          with e have "s = st" "v = g" by (auto simp: entry_state_def)
          with sv stale(3,4) show False by simp
        qed
        with e(1) hp(2) have "e \<in> set rest" by simp
        with e(2,3) have "queued (frontier vs') s v"
          unfolding queued_def stale(5) by auto
        then show ?thesis by blast
      next
        case 2
        then show ?thesis unfolding stale(5) by simp
      qed
    qed
    moreover have "g_best vs' s0 = Some 0" using s0 unfolding stale(5) by simp
    ultimately show ?thesis using valid' unfolding ucs_inv_def by blast
  next
    case (expand g c st path rest best)
    note hp = heappop_props[OF expand(1,2)]
    let ?vs1 = "vs\<lparr>frontier := rest, nodes_expanded := nodes_expanded vs + 1\<rparr>"
    let ?succs = "successors st rows cols blocked"
    from known hp(1) expand(3) have "best \<le> g"
      unfolding entries_known_def by (force simp: entry_state_def)
    with expand(4) have best: "best = g" by simp
    have "g_best ?vs1 s0 = Some 0" using s0 by simp
    then have s0': "g_best vs' s0 = Some 0" unfolding expand(6)
      by (rule foldl_ucs_relax_rule[where I = "\<lambda>v. g_best v s0 = Some 0"])
         (rule start_cost_relax)
    have "entries_known ?vs1"
      using known hp(4) unfolding entries_known_def by auto
    then have known': "entries_known vs'" unfolding expand(6)
      by (rule foldl_ucs_relax_rule) (rule entries_known_relax)
    have "settled_but rows cols blocked st g ?vs1"
      unfolding settled_but_def
    proof (intro allI impI)
      fix s v assume "g_best ?vs1 s = Some v"
      then have sv: "g_best vs s = Some v" by simp
      show "queued (frontier ?vs1) s v \<or>
          (if s = st then v = g else closed_at rows cols blocked (g_best ?vs1) s v)"
      proof (cases "s = st")
        case True
        with sv expand(3) best show ?thesis by simp
      next
        case False
        from sv settled consider "queued (frontier vs) s v"
          | "closed_at rows cols blocked (g_best vs) s v"
          unfolding settled_def by blast
        then show ?thesis
        proof cases
          case 1
          then obtain e where e: "e \<in> set (frontier vs)" "fst e = v" "entry_state e = s"
            unfolding queued_def by blast
          with False have "e \<noteq> (g, c, st, path)" by (auto simp: entry_state_def)
          with e(1) hp(2) have "e \<in> set rest" by simp
          with e(2,3) have "queued (frontier ?vs1) s v" unfolding queued_def by auto
          then show ?thesis by blast
        next
          case 2
          with False show ?thesis by simp
        qed
      qed
    qed
    then have but: "settled_but rows cols blocked st g vs'" unfolding expand(6)
      by (rule foldl_ucs_relax_rule) (rule settled_but_relax)
    have rec: "\<forall>t\<in>snd ` set ?succs. \<exists>w. g_best vs' t = Some w \<and> w \<le> g + 1"
      unfolding expand(6) by (rule successors_recorded)
    have "settled rows cols blocked vs'"
      unfolding settled_def
    proof (intro allI impI)
      fix s v assume sv: "g_best vs' s = Some v"
      with but have "queued (frontier vs') s v \<or>
          (if s = st then v = g else closed_at rows cols blocked (g_best vs') s v)"
        unfolding settled_but_def by blast
      moreover have "closed_at rows cols blocked (g_best vs') st g"
        unfolding closed_at_def using expand(5) rec by blast
      ultimately show "queued (frontier vs') s v \<or> closed_at rows cols blocked (g_best vs') s v"
        by (auto split: if_splits)
    qed
    with s0' known' valid' show ?thesis unfolding ucs_inv_def by blast
  qed
qed

lemma frontier_bound:
  assumes inv: "ucs_inv rows cols blocked s0 vs"
    and "apply_plan rows cols blocked s0 p = Some t"
  shows "(\<exists>e\<in>set (frontier vs). fst e \<le> length p) \<or>
         (\<exists>w. g_best vs t = Some w \<and> w \<le> length p)"
  using assms(2)
proof (induction p arbitrary: t rule: rev_induct)
  case Nil
  with inv show ?case by (simp add: ucs_inv_def)
next
  case (snoc a p)
  from snoc.prems obtain t' where t': "apply_plan rows cols blocked s0 p = Some t'"
    "map_of (successors t' rows cols blocked) a = Some t"
    by (auto simp: apply_plan_append split: option.splits)
  then have succ: "t \<in> snd ` set (successors t' rows cols blocked)"
    by (force dest: map_of_SomeD)
  from snoc.IH[OF t'(1)] show ?case
  proof
    assume "\<exists>e\<in>set (frontier vs). fst e \<le> length p"
    then obtain e where "e \<in> set (frontier vs)" "fst e \<le> length (p @ [a])" by auto
    then show ?thesis by blast
  next
    assume "\<exists>w. g_best vs t' = Some w \<and> w \<le> length p"
    then obtain w where w: "g_best vs t' = Some w" "w \<le> length p" by blast
    with inv consider "queued (frontier vs) t' w"
      | "closed_at rows cols blocked (g_best vs) t' w"
      unfolding ucs_inv_def settled_def by blast
    then show ?thesis
    proof cases
      case 1
      then obtain e where "e \<in> set (frontier vs)" "fst e = w" unfolding queued_def by blast
      with w(2) have "e \<in> set (frontier vs)" "fst e \<le> length (p @ [a])" by simp_all
      then show ?thesis by blast
    next
      case 2
      with succ obtain w' where "g_best vs t = Some w'" "w' \<le> w + 1"
        unfolding closed_at_def by blast
      with w(2) have "g_best vs t = Some w'" "w' \<le> length (p @ [a])" by simp_all
      then show ?thesis by blast
    qed
  qed
qed

lemma goal_bound:
  assumes inv: "ucs_inv rows cols blocked s0 vs"
    and "reaches_goal rows cols blocked s0 p"
  shows "\<exists>e\<in>set (frontier vs). fst e \<le> length p"
proof -
  from assms(2) obtain t where t: "apply_plan rows cols blocked s0 p = Some t" "is_goal t"
    by (auto simp: reaches_goal_def split: option.splits)
  from frontier_bound[OF inv t(1)] show ?thesis
  proof
    assume "\<exists>w. g_best vs t = Some w \<and> w \<le> length p"
    then obtain w where w: "g_best vs t = Some w" "w \<le> length p" by blast
    with inv t(2) have "queued (frontier vs) t w"
      unfolding ucs_inv_def settled_def closed_at_def by blast
    then obtain e where "e \<in> set (frontier vs)" "fst e = w" unfolding queued_def by blast
    with w(2) show ?thesis by blast
  qed
qed

lemma ucs_inv_result:
  assumes inv: "ucs_inv rows cols blocked s0 vs"
    and reach: "reaches_goal rows cols blocked s0 p"
    and step: "ucs_step rows cols blocked vs = Inl res"
  shows "\<exists>plan gen exp. res = Inr (Some plan, gen, exp) \<and>
           reaches_goal rows cols blocked s0 plan \<and>
           (\<forall>p'. reaches_goal rows cols blocked s0 p' \<longrightarrow> length plan \<le> length p')"
  using step
proof (cases rule: ucs_step_Inl)
  case empty
  with goal_bound[OF inv reach] show ?thesis by simp
next
  case (keyerror g c st path rest)
  from heappop_props(1)[OF keyerror(1,2)] inv have "\<exists>v. g_best vs st = Some v"
    unfolding ucs_inv_def entries_known_def by (force simp: entry_state_def)
  with keyerror(3) show ?thesis by simp
next
  case (goal g c st path rest best)
  note hp = heappop_props[OF goal(1,2)]
  from inv hp(1) have path: "apply_plan rows cols blocked s0 path = Some st" "length path = g"
    unfolding ucs_inv_def entries_valid_def by auto
  with goal(5) have "reaches_goal rows cols blocked s0 path"
    by (simp add: reaches_goal_def)
  moreover have "length path \<le> length p'" if "reaches_goal rows cols blocked s0 p'" for p'
  proof -
    from goal_bound[OF inv that] obtain e where e: "e \<in> set (frontier vs)" "fst e \<le> length p'"
      by blast
    from hp(5) e(1) have "entry_key (g, c, st, path) \<le> entry_key e" by blast
    then have "g \<le> fst e" by (auto simp: entry_key_def less_eq_prod_def)
    with e(2) path(2) show ?thesis by simp
  qed
  ultimately show ?thesis using goal(6) by blast
qed

lemma ucs_inv_init: "ucs_inv rows cols blocked (start, dirty) (ucs_init start dirty)"
proof -
  have "settled rows cols blocked (ucs_init start dirty)"
    by (auto simp: settled_def ucs_init_def heappush_def queued_def entry_state_def
        split: if_splits)
  moreover have "entries_known (ucs_init start dirty)"
    by (simp add: entries_known_def ucs_init_def heappush_def entry_state_def)
  moreover have "g_best (ucs_init start dirty) (start, dirty) = Some 0"
    by (simp add: ucs_init_def)
  ultimately show ?thesis unfolding ucs_inv_def using entries_valid_init by blast
qed

text \<open>
  C3: when some plan leads from the start state to a goal state, uniform-cost search returns
  a plan; that plan leads to a goal state, and no plan that leads to a goal state is shorter:
  its length is the minimum number of actions that clean every dirty cell.
\<close>

theorem uniform_cost_search_optimal:
  assumes "reaches_goal rows cols blocked (start, dirty) p"
  shows "\<exists>plan gen exp.
           uniform_cost_search rows cols blocked start dirty = Inr (Some plan, gen, exp) \<and>
           reaches_goal rows cols blocked (start, dirty) plan \<and>
           (\<forall>p'. reaches_goal rows cols blocked (start, dirty) p' \<longrightarrow> length plan \<le> length p')"
  unfolding uniform_cost_search_def
proof (rule ucs_loop_rule[where I = "ucs_inv rows cols blocked (start, dirty)"])
  show "ucs_inv rows cols blocked (start, dirty) (ucs_init start dirty)"
    by (rule ucs_inv_init)
next
  fix vs vs'
  assume "ucs_inv rows cols blocked (start, dirty) vs" "ucs_step rows cols blocked vs = Inr vs'"
  then show "ucs_inv rows cols blocked (start, dirty) vs'" by (rule ucs_inv_step)
next
  fix vs res
  assume "ucs_inv rows cols blocked (start, dirty) vs" "ucs_step rows cols blocked vs = Inl res"
  then show "\<exists>plan gen exp. res = Inr (Some plan, gen, exp) \<and>
      reaches_goal rows cols blocked (start, dirty) plan \<and>
      (\<forall>p'. reaches_goal rows cols blocked (start, dirty) p' \<longrightarrow> length plan \<le> length p')"
    by (rule ucs_inv_result[OF _ assms])
qed

theorem uniform_cost_search_optimal_witness:
  "reaches_goal 1 3 {} ((0, 1), {|(0, 0), (0, 2)|}) [W, V, E, E, V] \<and>
   (\<exists>plan gen exp.
      uniform_cost_search 1 3 {} (0, 1) {|(0, 0), (0, 2)|} = Inr (Some plan, gen, exp) \<and>
      reaches_goal 1 3 {} ((0, 1), {|(0, 0), (0, 2)|}) plan \<and> length plan \<le> 5)"
proof -
  have h: "reaches_goal 1 3 {} ((0, 1), {|(0, 0), (0, 2)|}) [W, V, E, E, V]"
    by code_simp
  from uniform_cost_search_optimal[OF h] obtain plan gen exp where
    "uniform_cost_search 1 3 {} (0, 1) {|(0, 0), (0, 2)|} = Inr (Some plan, gen, exp)"
    "reaches_goal 1 3 {} ((0, 1), {|(0, 0), (0, 2)|}) plan"
    "\<forall>p'. reaches_goal 1 3 {} ((0, 1), {|(0, 0), (0, 2)|}) p' \<longrightarrow> length plan \<le> length p'"
    by blast
  with h show ?thesis by fastforce
qed

end
